theory Spec2Isabelle
  imports Main "HOL-Library.Word"
begin

section \<open>The item layer of MemcacheDB (item.c)\<close>

text \<open>
  A shallow embedding of \<^verbatim>\<open>item.c\<close>: the freelist of item buffers, the header codec,
  the item allocator and the four operations on the Berkeley DB handle \<^verbatim>\<open>dbp\<close>.

  Machine types: \<^verbatim>\<open>size_t\<close> is a 64-bit word, \<^verbatim>\<open>int\<close> a 32-bit word read with
  \<open>sint\<close>, \<^verbatim>\<open>uint8_t\<close> an 8-bit word, \<^verbatim>\<open>u_int32_t\<close> (the sizes of a DBT) a 32-bit
  word. The counters \<^verbatim>\<open>freeitemtotal\<close> and \<^verbatim>\<open>freeitemcurr\<close> are kept as \<open>int\<close>:
  in every state reachable from \<^verbatim>\<open>item_init\<close> they stay between 0 and 4000 (the
  invariant \<open>pool_inv\<close> below, which every operation keeps), so their 32-bit range is
  never left.

  A pointer to an item buffer is a block identifier; 0 is \<^verbatim>\<open>NULL\<close>. The allocator
  hands out identifiers that were never used before, so a dangling pointer is never
  mistaken for a live one. The messages written to \<^verbatim>\<open>stderr\<close> when
  \<^verbatim>\<open>settings.verbose > 1\<close> change neither memory nor return values and are left out.
\<close>

type_synonym addr = nat
type_synonym size_t = "64 word"
type_synonym c_int = "32 word"
type_synonym uint8_t = "8 word"
type_synonym u_int32_t = "32 word"

subsection \<open>Data\<close>

text \<open>
  Modelled from the spec: the struct \<^verbatim>\<open>item\<close> of \<^verbatim>\<open>memcachedb.h\<close>, which is not among the
  sources. Section 3 of the specification gives its header (a byte-valued key length, the
  payload length, a byte-valued suffix length) followed by the key bytes, the suffix bytes
  and the payload bytes. \<open>ibody\<close> lists the bytes that follow the header, in the order of
  their addresses; the bytes of the block beyond the end of the list are zero.
\<close>

record item =
  nbytes :: c_int
  nsuffix :: uint8_t
  nkey :: uint8_t
  ibody :: string

definition zero_item :: item where
  "zero_item = \<lparr>nbytes = 0, nsuffix = 0, nkey = 0, ibody = []\<rparr>"

text \<open>
  Modelled from the spec: the macros \<^verbatim>\<open>ITEM_key\<close> and \<^verbatim>\<open>ITEM_suffix\<close> of
  \<^verbatim>\<open>memcachedb.h\<close>, as offsets into the bytes after the header. By section 3 of the
  specification the key comes first and the suffix follows the key; the room of the key is
  \<^verbatim>\<open>nkey + 1\<close> bytes, the key and its terminator, which is what \<^verbatim>\<open>item_alloc1\<close>
  counts for it.
\<close>

definition ITEM_key :: "item \<Rightarrow> nat" where
  "ITEM_key c = 0"

definition ITEM_suffix :: "item \<Rightarrow> nat" where
  "ITEM_suffix c = unat (nkey c) + 1"

text \<open>A block of the C heap that holds an item: the number of bytes requested for it and
  what is stored in it.\<close>

record block =
  bsize :: size_t
  content :: item

text \<open>
  What \<^verbatim>\<open>item.c\<close> takes from its environment: \<^verbatim>\<open>sizeof(item)\<close>, the macro
  \<^verbatim>\<open>ITEM_ntotal\<close> (both declared in the absent \<^verbatim>\<open>memcachedb.h\<close> and therefore
  parameters here) and \<^verbatim>\<open>settings.item_buf_size\<close>.
\<close>

record settings =
  sizeof_item :: size_t
  ITEM_ntotal :: "item \<Rightarrow> size_t"
  item_buf_size :: size_t

text \<open>Calls that leave the module: the C allocator and the reads and writes of the store.\<close>

datatype event =
    Malloc size_t addr
  | Realloc nat bool
  | Free addr
  | DbGet string u_int32_t addr u_int32_t
  | DbPut string u_int32_t addr u_int32_t

text \<open>
  The state: the C heap, the allocator's behaviour (\<open>alloc_oracle s n\<close> is \<open>None\<close> when
  the \<open>n\<close>-th request fails, and otherwise the indeterminate content of the new block), the
  number of requests made so far, the three static variables of \<^verbatim>\<open>item.c\<close>, and the
  log of outside calls. The array \<^verbatim>\<open>freeitem\<close> is the list of its cells; a
  \<^verbatim>\<open>NULL\<close> array has no cell.
\<close>

record state =
  heap :: "addr \<rightharpoonup> block"
  alloc_oracle :: "nat \<Rightarrow> item option"
  allocs :: nat
  freeitem :: "addr list"
  freeitemtotal :: int
  freeitemcurr :: int
  events :: "event list"

text \<open>Undefined behaviour of the C program is a value of the model.\<close>

datatype fault = BadIndex | BadPointer | Overrun

definition MAX_ITEM_FREELIST_LENGTH :: int where
  "MAX_ITEM_FREELIST_LENGTH = 4000"

definition INIT_ITEM_FREELIST_LENGTH :: int where
  "INIT_ITEM_FREELIST_LENGTH = 500"

subsection \<open>The C library\<close>

text \<open>\<^verbatim>\<open>malloc\<close> for an item buffer: the oracle decides whether the request fails; a new
  block has a fresh address and indeterminate content. \<^verbatim>\<open>memset(p, 0, n)\<close> over a whole
  block and \<^verbatim>\<open>free\<close> need a live block; \<^verbatim>\<open>free(NULL)\<close> does nothing.\<close>

definition c_malloc :: "size_t \<Rightarrow> state \<Rightarrow> addr \<times> state" where
  "c_malloc n s =
     (case alloc_oracle s (allocs s) of
        None \<Rightarrow> (0, s\<lparr>allocs := Suc (allocs s), events := events s @ [Malloc n 0]\<rparr>)
      | Some garbage \<Rightarrow>
          (let p = Suc (allocs s)
           in (p, s\<lparr>heap := (heap s)(p \<mapsto> \<lparr>bsize = n, content = garbage\<rparr>),
                    allocs := Suc (allocs s),
                    events := events s @ [Malloc n p]\<rparr>)))"

definition c_memset0 :: "addr \<Rightarrow> state \<Rightarrow> fault + state" where
  "c_memset0 p s =
     (case heap s p of
        None \<Rightarrow> Inl BadPointer
      | Some b \<Rightarrow> Inr (s\<lparr>heap := (heap s)(p \<mapsto> b\<lparr>content := zero_item\<rparr>)\<rparr>))"

definition c_free :: "addr \<Rightarrow> state \<Rightarrow> fault + state" where
  "c_free p s =
     (if p = 0 then Inr s
      else if heap s p = None then Inl BadPointer
      else Inr (s\<lparr>heap := (heap s)(p := None), events := events s @ [Free p]\<rparr>))"

text \<open>A C string ends at its first NUL. \<open>poke off xs mem\<close> is the memory \<open>mem\<close> after the
  bytes \<open>xs\<close> have been written at offset \<open>off\<close>. Writing into the bytes after the
  header of a block, as \<^verbatim>\<open>strcpy\<close> and \<^verbatim>\<open>memcpy\<close> do, is a fault when it runs past
  the end of the block.\<close>

definition cstring :: "string \<Rightarrow> string" where
  "cstring str = takeWhile (\<lambda>c. c \<noteq> CHR 0x00) str"

definition poke :: "nat \<Rightarrow> string \<Rightarrow> string \<Rightarrow> string" where
  "poke off xs mem = take off (mem @ replicate off (CHR 0x00)) @ xs @ drop (off + length xs) mem"

definition write_body :: "settings \<Rightarrow> nat \<Rightarrow> string \<Rightarrow> block \<Rightarrow> fault + block" where
  "write_body cfg off xs b =
     (if unat (sizeof_item cfg) + off + length xs \<le> unat (bsize b)
      then Inr (b\<lparr>content := (content b)\<lparr>ibody := poke off xs (ibody (content b))\<rparr>\<rparr>)
      else Inl Overrun)"

text \<open>\<^verbatim>\<open>realloc\<close> of the array \<^verbatim>\<open>freeitem\<close> to \<open>n\<close> cells: \<open>None\<close> when it fails (the
  old array stays), otherwise the new array, which keeps the old cells.\<close>

definition c_realloc :: "nat \<Rightarrow> state \<Rightarrow> addr list option \<times> state" where
  "c_realloc n s =
     (case alloc_oracle s (allocs s) of
        None \<Rightarrow> (None, s\<lparr>allocs := Suc (allocs s), events := events s @ [Realloc n False]\<rparr>)
      | Some _ \<Rightarrow>
          (Some (take n (freeitem s @ replicate n 0)),
           s\<lparr>allocs := Suc (allocs s), events := events s @ [Realloc n True]\<rparr>))"

text \<open>\<^verbatim>\<open>snprintf(buf, sz, ...)\<close>: at most \<open>sz - 1\<close> characters are stored (a NUL
  follows them); the value returned is the length of the whole formatted string.\<close>

definition c_snprintf :: "nat \<Rightarrow> string \<Rightarrow> string \<times> int" where
  "c_snprintf sz str = (take (sz - 1) str, int (length str))"

text \<open>Decimal digits; \<open>digit_char\<close> is only applied to numbers below 10.\<close>

definition digit_char :: "nat \<Rightarrow> char" where
  "digit_char d = ''0123456789'' ! d"

fun dec_nat :: "nat \<Rightarrow> string" where
  "dec_nat n = (if n < 10 then [digit_char n] else dec_nat (n div 10) @ [digit_char (n mod 10)])"

declare dec_nat.simps [simp del]

text \<open>The conversion \<^verbatim>\<open>%d\<close>.\<close>

definition show_int :: "int \<Rightarrow> string" where
  "show_int i = (if i < 0 then CHR ''-'' # dec_nat (nat (- i)) else dec_nat (nat i))"

subsection \<open>The freelist\<close>

text \<open>When the allocation of the array fails \<^verbatim>\<open>item_init\<close> reports it with
  \<^verbatim>\<open>perror\<close> and returns all the same: the capacity says 500 and the array is
  \<^verbatim>\<open>NULL\<close>.\<close>

definition item_init :: "state \<Rightarrow> state" where
  "item_init s =
     (let s1 = s\<lparr>freeitemtotal := INIT_ITEM_FREELIST_LENGTH, freeitemcurr := 0\<rparr>
      in case alloc_oracle s1 (allocs s1) of
           None \<Rightarrow> s1\<lparr>freeitem := [], allocs := Suc (allocs s1)\<rparr>
         | Some _ \<Rightarrow> s1\<lparr>freeitem := replicate (nat (freeitemtotal s1)) 0,
                        allocs := Suc (allocs s1)\<rparr>)"

definition do_item_from_freelist :: "settings \<Rightarrow> state \<Rightarrow> fault + addr \<times> state" where
  "do_item_from_freelist cfg s =
     (if freeitemcurr s > 0 then
        (let c = freeitemcurr s - 1
         in if nat c < length (freeitem s)
            then Inr (freeitem s ! nat c, s\<lparr>freeitemcurr := c\<rparr>)
            else Inl BadIndex)
      else
        (case c_malloc (item_buf_size cfg) s of
           (p, s1) \<Rightarrow>
             if p \<noteq> 0 then
               (case c_memset0 p s1 of Inl f \<Rightarrow> Inl f | Inr s2 \<Rightarrow> Inr (p, s2))
             else Inr (p, s1)))"

text \<open>\<^verbatim>\<open>freeitem[freeitemcurr++] = it\<close>\<close>

definition freeitem_store :: "addr \<Rightarrow> state \<Rightarrow> fault + state" where
  "freeitem_store it s =
     (if 0 \<le> freeitemcurr s \<and> nat (freeitemcurr s) < length (freeitem s)
      then Inr (s\<lparr>freeitem := (freeitem s)[nat (freeitemcurr s) := it],
                 freeitemcurr := freeitemcurr s + 1\<rparr>)
      else Inl BadIndex)"

definition do_item_add_to_freelist :: "addr \<Rightarrow> state \<Rightarrow> fault + int \<times> state" where
  "do_item_add_to_freelist it s =
     (if freeitemcurr s < freeitemtotal s then
        (case freeitem_store it s of Inl f \<Rightarrow> Inl f | Inr s1 \<Rightarrow> Inr (0, s1))
      else if freeitemtotal s \<ge> MAX_ITEM_FREELIST_LENGTH then Inr (1, s)
      else
        (case c_realloc (nat (freeitemtotal s * 2)) s of
           (Some new_freeitem, s1) \<Rightarrow>
             (case freeitem_store it
                     (s1\<lparr>freeitemtotal := freeitemtotal s1 * 2, freeitem := new_freeitem\<rparr>) of
                Inl f \<Rightarrow> Inl f
              | Inr s2 \<Rightarrow> Inr (0, s2))
         | (None, s1) \<Rightarrow> Inr (1, s1)))"

text \<open>
  Modelled from the spec: \<^verbatim>\<open>item_from_freelist\<close> and \<^verbatim>\<open>item_add_to_freelist\<close>, which
  are defined outside \<^verbatim>\<open>item.c\<close>. By section 5 of the specification and the comments
  above the two \<^verbatim>\<open>do_\<close> functions they run the pool operation under the process-wide
  lock; in this sequential model they are the pool operations themselves.
\<close>

definition item_from_freelist :: "settings \<Rightarrow> state \<Rightarrow> fault + addr \<times> state" where
  "item_from_freelist cfg s = do_item_from_freelist cfg s"

definition item_add_to_freelist :: "addr \<Rightarrow> state \<Rightarrow> fault + int \<times> state" where
  "item_add_to_freelist it s = do_item_add_to_freelist it s"

subsection \<open>The codec\<close>

definition suffix_format :: "c_int \<Rightarrow> c_int \<Rightarrow> string" where
  "suffix_format a b =
     CHR '' '' # show_int (sint a) @ CHR '' '' # show_int (sint b) @ [CHR 0x0D, CHR 0x0A]"

text \<open>The result is the value returned together with what is left in \<^verbatim>\<open>suffix\<close> and
  \<^verbatim>\<open>*nsuffix\<close>. The subtraction \<^verbatim>\<open>nbytes - 2\<close> wraps around here; in C it is undefined
  for the two smallest values of \<^verbatim>\<open>nbytes\<close>.\<close>

definition item_make_header ::
  "settings \<Rightarrow> uint8_t \<Rightarrow> c_int \<Rightarrow> c_int \<Rightarrow> size_t \<times> string \<times> uint8_t" where
  "item_make_header cfg nkey_arg flags nbytes_arg =
     (case c_snprintf 40 (suffix_format flags (nbytes_arg - 2)) of
        (suffix, n) \<Rightarrow>
          (let nsuffix_out = (word_of_int n :: uint8_t)
           in (sizeof_item cfg + ucast nkey_arg + ucast nsuffix_out + scast nbytes_arg,
               suffix, nsuffix_out)))"

subsection \<open>The allocator\<close>

definition item_alloc2 :: "settings \<Rightarrow> size_t \<Rightarrow> state \<Rightarrow> fault + addr \<times> state" where
  "item_alloc2 cfg ntotal s =
     (if ntotal > item_buf_size cfg then
        (case c_malloc ntotal s of
           (it, s1) \<Rightarrow>
             if it = 0 then Inr (0, s1)
             else (case c_memset0 it s1 of Inl f \<Rightarrow> Inl f | Inr s2 \<Rightarrow> Inr (it, s2)))
      else
        (case item_from_freelist cfg s of
           Inl f \<Rightarrow> Inl f
         | Inr (it, s1) \<Rightarrow> if it = 0 then Inr (0, s1) else Inr (it, s1)))"

text \<open>After the allocation: \<^verbatim>\<open>it->nkey = nkey; it->nbytes = nbytes;\<close> then
  \<^verbatim>\<open>strcpy\<close> of the key with its terminator to \<^verbatim>\<open>ITEM_key(it)\<close>, \<^verbatim>\<open>memcpy\<close> of
  \<^verbatim>\<open>nsuffix\<close> bytes of the suffix to \<^verbatim>\<open>ITEM_suffix(it)\<close>, and
  \<^verbatim>\<open>it->nsuffix = nsuffix\<close>.\<close>

definition item_alloc1 ::
  "settings \<Rightarrow> string \<Rightarrow> size_t \<Rightarrow> c_int \<Rightarrow> c_int \<Rightarrow> state \<Rightarrow> fault + addr \<times> state" where
  "item_alloc1 cfg key nkey_arg flags nbytes_arg s =
     (case item_make_header cfg (ucast (nkey_arg + 1)) flags nbytes_arg of
        (ntotal, suffix, nsuffix_out) \<Rightarrow>
          (case (if ntotal > item_buf_size cfg then
                   (case c_malloc ntotal s of
                      (it, s1) \<Rightarrow>
                        if it = 0 then Inr (0, s1)
                        else (case c_memset0 it s1 of
                                Inl f \<Rightarrow> Inl f | Inr s2 \<Rightarrow> Inr (it, s2)))
                 else
                   (case item_from_freelist cfg s of
                      Inl f \<Rightarrow> Inl f
                    | Inr (it, s1) \<Rightarrow> if it = 0 then Inr (0, s1) else Inr (it, s1))) of
             Inl f \<Rightarrow> Inl f
           | Inr (it, s1) \<Rightarrow>
               if it = 0 then Inr (0, s1)
               else
                 (case heap s1 it of
                    None \<Rightarrow> Inl BadPointer
                  | Some b \<Rightarrow>
                      (let b1 = b\<lparr>content := (content b)\<lparr>nkey := ucast nkey_arg,
                                                          nbytes := nbytes_arg\<rparr>\<rparr>
                       in case write_body cfg (ITEM_key (content b1))
                                 (cstring key @ [CHR 0x00]) b1 of
                            Inl f \<Rightarrow> Inl f
                          | Inr b2 \<Rightarrow>
                              (case write_body cfg (ITEM_suffix (content b2))
                                      (take (unat nsuffix_out) suffix) b2 of
                                 Inl f \<Rightarrow> Inl f
                               | Inr b3 \<Rightarrow>
                                   Inr (it, s1\<lparr>heap := (heap s1)(it \<mapsto>
                                          b3\<lparr>content :=
                                               (content b3)\<lparr>nsuffix := nsuffix_out\<rparr>\<rparr>)\<rparr>))))))"

definition item_free :: "settings \<Rightarrow> addr \<Rightarrow> state \<Rightarrow> fault + int \<times> state" where
  "item_free cfg it s =
     (if it = 0 then Inr (0, s)
      else
        (case heap s it of
           None \<Rightarrow> Inl BadPointer
         | Some b \<Rightarrow>
             (let ntotal = ITEM_ntotal cfg (content b)
              in if ntotal > item_buf_size cfg then
                   (case c_free it s of Inl f \<Rightarrow> Inl f | Inr s1 \<Rightarrow> Inr (0, s1))
                 else
                   (case item_add_to_freelist it s of
                      Inl f \<Rightarrow> Inl f
                    | Inr (r, s1) \<Rightarrow>
                        if r \<noteq> 0 then
                          (case c_free it s1 of Inl f \<Rightarrow> Inl f | Inr s2 \<Rightarrow> Inr (0, s2))
                        else Inr (0, s1)))))"

subsection \<open>The store\<close>

text \<open>
  Modelled from the spec: the return codes of the store's methods (section 6 of the
  specification); \<^verbatim>\<open>db.h\<close> is not among the sources. \<open>DB_SUCCESS\<close> is the code 0 and
  \<open>DB_FAILURE e\<close> any code other than 0, \<^verbatim>\<open>DB_BUFFER_SMALL\<close> and \<^verbatim>\<open>DB_NOTFOUND\<close>.
\<close>

datatype db_status = DB_SUCCESS | DB_BUFFER_SMALL | DB_NOTFOUND | DB_FAILURE int

text \<open>One answer of \<^verbatim>\<open>dbp->get\<close>: the code returned, the value left in
  \<^verbatim>\<open>dbdata.size\<close>, and what the store wrote into the caller's buffer (\<open>None\<close> when it
  left the buffer alone).\<close>

record get_reply =
  status :: db_status
  dsize :: u_int32_t
  written :: "item option"

definition db_write :: "addr \<Rightarrow> item option \<Rightarrow> state \<Rightarrow> state" where
  "db_write it w s =
     (case (w, heap s it) of
        (Some c, Some b) \<Rightarrow> s\<lparr>heap := (heap s)(it \<mapsto> b\<lparr>content := c\<rparr>)\<rparr>
      | _ \<Rightarrow> s)"

text \<open>What \<^verbatim>\<open>item_get\<close> has done when the answers of the store run out: \<open>Returned\<close> is
  the pointer it returns, \<open>Waiting\<close> is a read of the store that has not been answered,
  with the buffer the operation holds.\<close>

datatype get_outcome = Returned addr state | Waiting addr state | Crashed fault

text \<open>The loop of \<^verbatim>\<open>item_get\<close>, one answer of the store per iteration. \<open>ulen\<close> is
  \<^verbatim>\<open>dbdata.ulen\<close>.\<close>

fun item_get_loop ::
  "settings \<Rightarrow> get_reply list \<Rightarrow> string \<Rightarrow> size_t \<Rightarrow> addr \<Rightarrow> u_int32_t \<Rightarrow> state \<Rightarrow> get_outcome"
where
  "item_get_loop cfg [] key nkey_arg it ulen s =
     Waiting it (s\<lparr>events := events s @ [DbGet key (ucast nkey_arg) it ulen]\<rparr>)"
| "item_get_loop cfg (r # rs) key nkey_arg it ulen s =
     (let s0 = db_write it (written r)
                 (s\<lparr>events := events s @ [DbGet key (ucast nkey_arg) it ulen]\<rparr>)
      in case status r of
           DB_BUFFER_SMALL \<Rightarrow>
             (case item_free cfg it s0 of
                Inl f \<Rightarrow> Crashed f
              | Inr (_, s1) \<Rightarrow>
                  (case item_alloc2 cfg (ucast (dsize r)) s1 of
                     Inl f \<Rightarrow> Crashed f
                   | Inr (it', s2) \<Rightarrow>
                       if it' = 0 then Returned 0 s2
                       else item_get_loop cfg rs key nkey_arg it' (dsize r) s2))
         | DB_SUCCESS \<Rightarrow> Returned it s0
         | DB_NOTFOUND \<Rightarrow>
             (case item_free cfg it s0 of
                Inl f \<Rightarrow> Crashed f
              | Inr (_, s1) \<Rightarrow> Returned 0 s1)
         | DB_FAILURE e \<Rightarrow>
             (case item_free cfg it s0 of
                Inl f \<Rightarrow> Crashed f
              | Inr (_, s1) \<Rightarrow> Returned 0 s1))"

definition item_get ::
  "settings \<Rightarrow> get_reply list \<Rightarrow> string \<Rightarrow> size_t \<Rightarrow> state \<Rightarrow> get_outcome" where
  "item_get cfg replies key nkey_arg s =
     (case item_alloc2 cfg (item_buf_size cfg) s of
        Inl f \<Rightarrow> Crashed f
      | Inr (it, s1) \<Rightarrow>
          if it = 0 then Returned 0 s1
          else item_get_loop cfg replies key nkey_arg it (ucast (item_buf_size cfg)) s1)"

text \<open>\<open>ret\<close> is the code that \<^verbatim>\<open>dbp->put\<close>, \<^verbatim>\<open>dbp->del\<close> or \<^verbatim>\<open>dbp->exists\<close>
  returns for the call.\<close>

definition item_put ::
  "settings \<Rightarrow> db_status \<Rightarrow> string \<Rightarrow> size_t \<Rightarrow> addr \<Rightarrow> state \<Rightarrow> fault + int \<times> state" where
  "item_put cfg ret key nkey_arg it s =
     (case heap s it of
        None \<Rightarrow> Inl BadPointer
      | Some b \<Rightarrow>
          (let s1 = s\<lparr>events := events s @
                       [DbPut key (ucast nkey_arg) it (ucast (ITEM_ntotal cfg (content b)))]\<rparr>
           in if ret = DB_SUCCESS then Inr (0, s1) else Inr (- 1, s1)))"

definition item_delete :: "db_status \<Rightarrow> string \<Rightarrow> size_t \<Rightarrow> int" where
  "item_delete ret key nkey_arg =
     (if ret = DB_SUCCESS then 0
      else if ret = DB_NOTFOUND then 1
      else - 1)"

definition item_exists :: "db_status \<Rightarrow> string \<Rightarrow> size_t \<Rightarrow> int" where
  "item_exists ret key nkey_arg = (if ret = DB_SUCCESS then 1 else 0)"

section \<open>Invariants and example states\<close>

text \<open>The buffers that the freelist holds, oldest first: the cells below \<^verbatim>\<open>freeitemcurr\<close>.\<close>

definition pool_stack :: "state \<Rightarrow> addr list" where
  "pool_stack s = take (nat (freeitemcurr s)) (freeitem s)"

text \<open>The buffers that are allocated and not in the freelist: they belong to the callers of
  the module or to an operation in progress.\<close>

definition owned :: "state \<Rightarrow> addr set" where
  "owned s = dom (heap s) - set (pool_stack s)"

text \<open>The shape of the freelist in every state reached from \<^verbatim>\<open>item_init\<close>: the capacity
  is 500 doubled at most three times, the array has that many cells, and the fill count is
  within it.\<close>

definition pool_inv :: "state \<Rightarrow> bool" where
  "pool_inv s \<longleftrightarrow>
     freeitemtotal s \<in> {500, 1000, 2000, 4000} \<and>
     length (freeitem s) = nat (freeitemtotal s) \<and>
     0 \<le> freeitemcurr s \<and> freeitemcurr s \<le> freeitemtotal s"

text \<open>Every block is at a non-null address that the allocator has handed out, and has at
  least the standard size: the module requests either \<^verbatim>\<open>settings.item_buf_size\<close> bytes
  or more.\<close>

definition heap_inv :: "settings \<Rightarrow> state \<Rightarrow> bool" where
  "heap_inv cfg s \<longleftrightarrow>
     (\<forall>p b. heap s p = Some b \<longrightarrow> p \<noteq> 0 \<and> p \<le> allocs s \<and> item_buf_size cfg \<le> bsize b)"

text \<open>The freelist holds live buffers, each once.\<close>

definition mem_inv :: "settings \<Rightarrow> state \<Rightarrow> bool" where
  "mem_inv cfg s \<longleftrightarrow>
     pool_inv s \<and> heap_inv cfg s \<and>
     distinct (pool_stack s) \<and> set (pool_stack s) \<subseteq> dom (heap s)"

text \<open>Lists of events that are all calls of \<^verbatim>\<open>realloc\<close>.\<close>

definition only_reallocs :: "event list \<Rightarrow> bool" where
  "only_reallocs es = list_all (\<lambda>e. case e of Realloc n b \<Rightarrow> True | _ \<Rightarrow> False) es"

text \<open>Lists of events in which the allocator is only asked to free a block or to resize
  the array of the freelist.\<close>

definition release_events :: "event list \<Rightarrow> bool" where
  "release_events es =
     list_all (\<lambda>e. case e of Realloc n b \<Rightarrow> True | Free p \<Rightarrow> True | _ \<Rightarrow> False) es"

text \<open>An operation that held \<open>it\<close> in state \<open>s\<close> holds exactly \<open>p\<close> in state \<open>s'\<close>:
  every other buffer is where it was.\<close>

definition holds_one :: "state \<Rightarrow> addr \<Rightarrow> addr \<Rightarrow> state \<Rightarrow> bool" where
  "holds_one s it p s' \<longleftrightarrow> p \<noteq> 0 \<and> p \<notin> owned s - {it} \<and> owned s' = insert p (owned s - {it})"

text \<open>A sequence of calls of \<^verbatim>\<open>do_item_add_to_freelist\<close>, with the values returned.\<close>

fun release_all :: "addr list \<Rightarrow> state \<Rightarrow> fault + int list \<times> state" where
  "release_all [] s = Inr ([], s)"
| "release_all (it # its) s =
     (case do_item_add_to_freelist it s of
        Inl f \<Rightarrow> Inl f
      | Inr (r, s1) \<Rightarrow>
          (case release_all its s1 of
             Inl f \<Rightarrow> Inl f
           | Inr (rs, s2) \<Rightarrow> Inr (r # rs, s2)))"

text \<open>A process at start, with an allocator that never fails, before and after
  \<^verbatim>\<open>item_init\<close>.\<close>

definition boot :: state where
  "boot = \<lparr>heap = Map.empty, alloc_oracle = (\<lambda>n. Some zero_item), allocs = 0,
           freeitem = [], freeitemtotal = 0, freeitemcurr = 0, events = []\<rparr>"

definition started :: state where
  "started = item_init boot"

text \<open>Example settings: a header of 8 bytes, a total size that counts the header, the key
  with its terminator, the suffix and the payload, and a standard size of 2048 bytes.\<close>

definition example_settings :: settings where
  "example_settings =
     \<lparr>sizeof_item = 8,
      ITEM_ntotal = (\<lambda>it. 8 + ucast (nkey it) + 1 + ucast (nsuffix it) + scast (nbytes it)),
      item_buf_size = 2048\<rparr>"

text \<open>The state after \<^verbatim>\<open>item_init\<close> in which a caller holds one buffer of the standard
  size.\<close>

definition one_buffer :: state where
  "one_buffer = started\<lparr>heap := [2 \<mapsto> \<lparr>bsize = 2048, content = zero_item\<rparr>], allocs := 2\<rparr>"

text \<open>An answer of the store with every error code replaced by \<^verbatim>\<open>DB_NOTFOUND\<close>.\<close>

definition as_notfound :: "get_reply \<Rightarrow> get_reply" where
  "as_notfound r = (case status r of DB_FAILURE e \<Rightarrow> r\<lparr>status := DB_NOTFOUND\<rparr> | _ \<Rightarrow> r)"

section \<open>Properties\<close>

subsection \<open>Auxiliary lemmas\<close>

lemma take_Suc_update: "n < length xs \<Longrightarrow> take (Suc n) (xs[n := x]) = take n xs @ [x]"
  by (simp add: take_Suc_conv_app_nth)

lemma freeitem_store_ok:
  assumes "0 \<le> freeitemcurr s" "nat (freeitemcurr s) < length (freeitem s)"
  shows "\<exists>s'. freeitem_store it s = Inr s' \<and> pool_stack s' = pool_stack s @ [it] \<and>
     freeitemcurr s' = freeitemcurr s + 1 \<and> length (freeitem s') = length (freeitem s) \<and>
     freeitemtotal s' = freeitemtotal s \<and> heap s' = heap s \<and> allocs s' = allocs s \<and>
     alloc_oracle s' = alloc_oracle s \<and> events s' = events s"
  using assms
  by (simp add: freeitem_store_def pool_stack_def nat_add_distrib take_Suc_update)

lemma mem_inv_pool_inv: "mem_inv cfg s \<Longrightarrow> pool_inv s"
  by (simp add: mem_inv_def)

lemma add_room:
  assumes "pool_inv s" "freeitemcurr s < freeitemtotal s"
  shows "\<exists>s'. do_item_add_to_freelist it s = Inr (0, s') \<and> pool_inv s' \<and>
     pool_stack s' = pool_stack s @ [it] \<and> freeitemtotal s' = freeitemtotal s \<and>
     freeitemcurr s' = freeitemcurr s + 1 \<and>
     heap s' = heap s \<and> allocs s' = allocs s \<and> alloc_oracle s' = alloc_oracle s \<and>
     events s' = events s"
proof -
  from assms have "0 \<le> freeitemcurr s" "nat (freeitemcurr s) < length (freeitem s)"
    by (auto simp: pool_inv_def)
  from freeitem_store_ok [OF this, of it] obtain s' where
    s': "freeitem_store it s = Inr s'" "pool_stack s' = pool_stack s @ [it]"
      "freeitemcurr s' = freeitemcurr s + 1" "length (freeitem s') = length (freeitem s)"
      "freeitemtotal s' = freeitemtotal s" "heap s' = heap s" "allocs s' = allocs s"
      "alloc_oracle s' = alloc_oracle s" "events s' = events s"
    by blast
  have "pool_inv s'" using assms s' by (auto simp: pool_inv_def)
  with s' assms(2) show ?thesis by (simp add: do_item_add_to_freelist_def)
qed

lemma add_at_max:
  assumes "\<not> freeitemcurr s < freeitemtotal s" "freeitemtotal s \<ge> 4000"
  shows "do_item_add_to_freelist it s = Inr (1, s)"
  using assms by (simp add: do_item_add_to_freelist_def MAX_ITEM_FREELIST_LENGTH_def)

lemma add_grow_fails:
  assumes "\<not> freeitemcurr s < freeitemtotal s" "freeitemtotal s < 4000"
    "alloc_oracle s (allocs s) = None"
  shows "do_item_add_to_freelist it s =
     Inr (1, s\<lparr>allocs := Suc (allocs s),
               events := events s @ [Realloc (nat (freeitemtotal s * 2)) False]\<rparr>)"
  using assms
  by (simp add: do_item_add_to_freelist_def MAX_ITEM_FREELIST_LENGTH_def c_realloc_def)

lemma add_grows:
  assumes "pool_inv s" "\<not> freeitemcurr s < freeitemtotal s" "freeitemtotal s < 4000"
    "alloc_oracle s (allocs s) = Some g"
  shows "\<exists>s'. do_item_add_to_freelist it s = Inr (0, s') \<and> pool_inv s' \<and>
     pool_stack s' = pool_stack s @ [it] \<and> freeitemtotal s' = 2 * freeitemtotal s \<and>
     freeitemcurr s' = freeitemcurr s + 1 \<and>
     heap s' = heap s \<and> allocs s' = Suc (allocs s) \<and> alloc_oracle s' = alloc_oracle s \<and>
     events s' = events s @ [Realloc (nat (freeitemtotal s * 2)) True]"
proof -
  let ?n = "nat (freeitemtotal s * 2)"
  let ?s1 = "s\<lparr>allocs := Suc (allocs s), events := events s @ [Realloc ?n True]\<rparr>"
  let ?s2 = "?s1\<lparr>freeitemtotal := freeitemtotal ?s1 * 2,
                 freeitem := take ?n (freeitem s @ replicate ?n 0)\<rparr>"
  from assms have cur: "freeitemcurr s = freeitemtotal s" and pos: "0 < freeitemtotal s"
    and len: "length (freeitem s) = nat (freeitemtotal s)"
    by (auto simp: pool_inv_def)
  have re: "c_realloc ?n s = (Some (take ?n (freeitem s @ replicate ?n 0)), ?s1)"
    using assms(4) by (simp add: c_realloc_def)
  have a: "0 \<le> freeitemcurr ?s2" using cur pos by simp
  have b: "nat (freeitemcurr ?s2) < length (freeitem ?s2)" using cur pos len by simp
  from freeitem_store_ok [OF a b, of it] obtain s' where
    s': "freeitem_store it ?s2 = Inr s'" "pool_stack s' = pool_stack ?s2 @ [it]"
      "freeitemcurr s' = freeitemcurr ?s2 + 1" "length (freeitem s') = length (freeitem ?s2)"
      "freeitemtotal s' = freeitemtotal ?s2" "heap s' = heap ?s2" "allocs s' = allocs ?s2"
      "alloc_oracle s' = alloc_oracle ?s2" "events s' = events ?s2"
    by blast
  have st: "pool_stack ?s2 = pool_stack s" using cur len pos by (simp add: pool_stack_def)
  have inv: "pool_inv s'" using assms(1,3) s' cur len pos by (auto simp: pool_inv_def)
  have "do_item_add_to_freelist it s = Inr (0, s')"
    using assms(2,3) re s'(1)
    by (simp add: do_item_add_to_freelist_def MAX_ITEM_FREELIST_LENGTH_def)
  with inv s' st show ?thesis by simp
qed

lemma add_summary:
  assumes "pool_inv s"
  shows "\<exists>r s' es. do_item_add_to_freelist it s = Inr (r, s') \<and> pool_inv s' \<and>
     heap s' = heap s \<and> alloc_oracle s' = alloc_oracle s \<and> allocs s \<le> allocs s' \<and>
     events s' = events s @ es \<and> only_reallocs es \<and>
     (r = 0 \<or> r = 1) \<and>
     pool_stack s' = (if r = 0 then pool_stack s @ [it] else pool_stack s)"
proof (cases "freeitemcurr s < freeitemtotal s")
  case True
  from add_room [OF assms True, of it] show ?thesis
    by (auto simp: only_reallocs_def)
next
  case full: False
  show ?thesis
  proof (cases "freeitemtotal s \<ge> 4000")
    case True
    from add_at_max [OF full True, of it] assms show ?thesis
      by (auto simp: only_reallocs_def)
  next
    case False
    then have lt: "freeitemtotal s < 4000" by simp
    show ?thesis
    proof (cases "alloc_oracle s (allocs s)")
      case None
      let ?s' = "s\<lparr>allocs := Suc (allocs s),
                    events := events s @ [Realloc (nat (freeitemtotal s * 2)) False]\<rparr>"
      have "pool_inv ?s'" using assms by (simp add: pool_inv_def)
      moreover have "pool_stack ?s' = pool_stack s" by (simp add: pool_stack_def)
      ultimately show ?thesis
        using add_grow_fails [OF full lt None, of it]
        by (auto simp: only_reallocs_def)
    next
      case (Some g)
      from add_grows [OF assms full lt Some, of it] show ?thesis
        by (auto simp: only_reallocs_def)
    qed
  qed
qed

lemma from_pop:
  assumes "pool_inv s" "freeitemcurr s > 0"
  shows "do_item_from_freelist cfg s =
           Inr (freeitem s ! nat (freeitemcurr s - 1), s\<lparr>freeitemcurr := freeitemcurr s - 1\<rparr>)"
    and "freeitem s ! nat (freeitemcurr s - 1) = last (pool_stack s)"
    and "pool_stack (s\<lparr>freeitemcurr := freeitemcurr s - 1\<rparr>) = butlast (pool_stack s)"
    and "pool_stack s \<noteq> []"
    and "pool_inv (s\<lparr>freeitemcurr := freeitemcurr s - 1\<rparr>)"
proof -
  from assms have len: "nat (freeitemcurr s) \<le> length (freeitem s)" "0 < nat (freeitemcurr s)"
    by (auto simp: pool_inv_def)
  then have lt: "nat (freeitemcurr s - 1) < length (freeitem s)" by linarith
  show "do_item_from_freelist cfg s =
           Inr (freeitem s ! nat (freeitemcurr s - 1), s\<lparr>freeitemcurr := freeitemcurr s - 1\<rparr>)"
    using assms(2) lt by (simp add: do_item_from_freelist_def Let_def)
  have n1: "nat (freeitemcurr s - 1) = nat (freeitemcurr s) - 1" by simp
  show ne: "pool_stack s \<noteq> []" using len by (auto simp: pool_stack_def)
  show "freeitem s ! nat (freeitemcurr s - 1) = last (pool_stack s)"
    using len ne by (simp add: pool_stack_def last_conv_nth n1 min_absorb2)
  show "pool_stack (s\<lparr>freeitemcurr := freeitemcurr s - 1\<rparr>) = butlast (pool_stack s)"
    using len by (simp add: pool_stack_def butlast_take n1 min_absorb2)
  show "pool_inv (s\<lparr>freeitemcurr := freeitemcurr s - 1\<rparr>)"
    using assms by (simp add: pool_inv_def)
qed

lemma from_malloc:
  assumes "\<not> freeitemcurr s > 0" "alloc_oracle s (allocs s) = Some g"
  shows "do_item_from_freelist cfg s =
     Inr (Suc (allocs s),
          s\<lparr>heap := (heap s)(Suc (allocs s) \<mapsto> \<lparr>bsize = item_buf_size cfg, content = zero_item\<rparr>),
            allocs := Suc (allocs s),
            events := events s @ [Malloc (item_buf_size cfg) (Suc (allocs s))]\<rparr>)"
  using assms by (simp add: do_item_from_freelist_def c_malloc_def c_memset0_def)

lemma from_malloc_fails:
  assumes "\<not> freeitemcurr s > 0" "alloc_oracle s (allocs s) = None"
  shows "do_item_from_freelist cfg s =
     Inr (0, s\<lparr>allocs := Suc (allocs s),
               events := events s @ [Malloc (item_buf_size cfg) 0]\<rparr>)"
  using assms by (simp add: do_item_from_freelist_def c_malloc_def)

lemma heap_inv_same:
  assumes "heap_inv cfg s" "heap s' = heap s" "allocs s \<le> allocs s'"
  shows "heap_inv cfg s'"
  unfolding heap_inv_def
proof (intro allI impI)
  fix p b assume "heap s' p = Some b"
  with assms(2) have "heap s p = Some b" by simp
  with assms(1) have "p \<noteq> 0 \<and> p \<le> allocs s \<and> item_buf_size cfg \<le> bsize b"
    by (simp add: heap_inv_def)
  with assms(3) show "p \<noteq> 0 \<and> p \<le> allocs s' \<and> item_buf_size cfg \<le> bsize b" by simp
qed

lemma heap_inv_malloc:
  assumes "heap_inv cfg s" "heap s' = (heap s)(Suc (allocs s) \<mapsto> b)"
    "allocs s' = Suc (allocs s)" "item_buf_size cfg \<le> bsize b"
  shows "heap_inv cfg s'"
  unfolding heap_inv_def
proof (intro allI impI)
  fix p c assume h: "heap s' p = Some c"
  show "p \<noteq> 0 \<and> p \<le> allocs s' \<and> item_buf_size cfg \<le> bsize c"
  proof (cases "p = Suc (allocs s)")
    case True
    with h assms show ?thesis by simp
  next
    case False
    with h assms(2) have "heap s p = Some c" by simp
    with assms(1) have "p \<noteq> 0 \<and> p \<le> allocs s \<and> item_buf_size cfg \<le> bsize c"
      by (simp add: heap_inv_def)
    with assms(3) show ?thesis by simp
  qed
qed

lemma heap_inv_free:
  assumes "heap_inv cfg s" "heap s' = (heap s)(p := None)" "allocs s \<le> allocs s'"
  shows "heap_inv cfg s'"
  unfolding heap_inv_def
proof (intro allI impI)
  fix q b assume h: "heap s' q = Some b"
  with assms(2) have "heap s q = Some b" by (cases "q = p") simp_all
  with assms(1) have "q \<noteq> 0 \<and> q \<le> allocs s \<and> item_buf_size cfg \<le> bsize b"
    by (simp add: heap_inv_def)
  with assms(3) show "q \<noteq> 0 \<and> q \<le> allocs s' \<and> item_buf_size cfg \<le> bsize b" by simp
qed

lemma heap_inv_content:
  assumes "heap_inv cfg s" "heap s p = Some b" "heap s' = (heap s)(p \<mapsto> b\<lparr>content := c\<rparr>)"
    "allocs s \<le> allocs s'"
  shows "heap_inv cfg s'"
  unfolding heap_inv_def
proof (intro allI impI)
  fix q d assume h: "heap s' q = Some d"
  show "q \<noteq> 0 \<and> q \<le> allocs s' \<and> item_buf_size cfg \<le> bsize d"
  proof (cases "q = p")
    case True
    from assms(1,2) have "p \<noteq> 0 \<and> p \<le> allocs s \<and> item_buf_size cfg \<le> bsize b"
      by (simp add: heap_inv_def)
    with True h assms(3,4) show ?thesis by auto
  next
    case False
    with h assms(3) have "heap s q = Some d" by simp
    with assms(1) have "q \<noteq> 0 \<and> q \<le> allocs s \<and> item_buf_size cfg \<le> bsize d"
      by (simp add: heap_inv_def)
    with assms(4) show ?thesis by simp
  qed
qed

lemma heap_inv_fresh:
  assumes "heap_inv cfg s"
  shows "heap s (Suc (allocs s)) = None"
proof (rule ccontr)
  assume "heap s (Suc (allocs s)) \<noteq> None"
  then obtain b where "heap s (Suc (allocs s)) = Some b" by auto
  with assms have "Suc (allocs s) \<le> allocs s" unfolding heap_inv_def by blast
  then show False by simp
qed

lemma from_freelist_mem_inv:
  assumes "mem_inv cfg s"
  shows "\<exists>it s'. do_item_from_freelist cfg s = Inr (it, s') \<and> mem_inv cfg s' \<and>
     alloc_oracle s' = alloc_oracle s \<and>
     (if it = 0 then owned s' = owned s \<and> alloc_oracle s (allocs s) = None
      else it \<notin> owned s \<and> owned s' = insert it (owned s))"
proof (cases "freeitemcurr s > 0")
  case True
  note inv = mem_inv_pool_inv [OF assms]
  let ?it = "freeitem s ! nat (freeitemcurr s - 1)"
  let ?s' = "s\<lparr>freeitemcurr := freeitemcurr s - 1\<rparr>"
  note pop = from_pop [OF inv True]
  have dist: "distinct (pool_stack s)" and sub: "set (pool_stack s) \<subseteq> dom (heap s)"
    and hp: "heap_inv cfg s"
    using assms by (auto simp: mem_inv_def)
  have mem: "?it \<in> set (pool_stack s)" using pop(2,4) by simp
  have split: "pool_stack s = pool_stack ?s' @ [?it]"
    using pop(2,3,4) by simp
  have dist': "distinct (pool_stack ?s' @ [?it])" using dist split by simp
  have sub': "set (pool_stack ?s' @ [?it]) \<subseteq> dom (heap s)" using sub split by simp
  have "?it \<in> dom (heap s)" using mem sub by blast
  then have "?it \<noteq> 0" using hp by (auto simp: heap_inv_def)
  moreover have "?it \<notin> owned s" using mem by (simp add: owned_def)
  moreover have "owned ?s' = insert ?it (owned s)"
  proof -
    have "owned s = dom (heap s) - set (pool_stack ?s' @ [?it])"
      unfolding owned_def using split by simp
    moreover have "owned ?s' = dom (heap s) - set (pool_stack ?s')"
      by (simp add: owned_def)
    ultimately show ?thesis using dist' sub' by auto
  qed
  moreover have "mem_inv cfg ?s'"
  proof -
    have "distinct (pool_stack ?s')" "set (pool_stack ?s') \<subseteq> dom (heap ?s')"
      using dist' sub' by auto
    moreover have "pool_inv ?s'" by (rule pop(5))
    moreover have "heap_inv cfg ?s'" using hp by (simp add: heap_inv_def)
    ultimately show ?thesis by (simp add: mem_inv_def)
  qed
  ultimately show ?thesis using pop(1) [of cfg] by simp
next
  case False
  have hp: "heap_inv cfg s" and pi: "pool_inv s" and dist: "distinct (pool_stack s)"
    and sub: "set (pool_stack s) \<subseteq> dom (heap s)"
    using assms by (auto simp: mem_inv_def)
  show ?thesis
  proof (cases "alloc_oracle s (allocs s)")
    case None
    let ?s' = "s\<lparr>allocs := Suc (allocs s), events := events s @ [Malloc (item_buf_size cfg) 0]\<rparr>"
    have "heap_inv cfg ?s'" using hp by (rule heap_inv_same) simp_all
    moreover have "pool_inv ?s'" using pi by (simp add: pool_inv_def)
    moreover have st: "pool_stack ?s' = pool_stack s" by (simp add: pool_stack_def)
    ultimately have "mem_inv cfg ?s'" using dist sub by (simp add: mem_inv_def)
    moreover have "owned ?s' = owned s" by (simp add: owned_def st)
    ultimately show ?thesis using from_malloc_fails [OF False None, of cfg] None by simp
  next
    case (Some g)
    let ?p = "Suc (allocs s)"
    let ?s' = "s\<lparr>heap := (heap s)(?p \<mapsto> \<lparr>bsize = item_buf_size cfg, content = zero_item\<rparr>),
            allocs := Suc (allocs s),
            events := events s @ [Malloc (item_buf_size cfg) ?p]\<rparr>"
    have fresh: "?p \<notin> dom (heap s)" using heap_inv_fresh [OF hp] by (simp add: domIff)
    have st: "pool_stack ?s' = pool_stack s" by (simp add: pool_stack_def)
    have "heap_inv cfg ?s'"
      using hp
      by (rule heap_inv_malloc [where b = "\<lparr>bsize = item_buf_size cfg, content = zero_item\<rparr>"])
        simp_all
    moreover have "pool_inv ?s'" using pi by (simp add: pool_inv_def)
    ultimately have "mem_inv cfg ?s'" using dist sub by (auto simp: mem_inv_def st)
    moreover have "?p \<notin> owned s" using fresh by (simp add: owned_def)
    moreover have "owned ?s' = insert ?p (owned s)"
      using fresh sub unfolding owned_def st by auto
    ultimately show ?thesis using from_malloc [OF False Some, of cfg] by simp
  qed
qed

lemma only_reallocs_no_free: "only_reallocs es \<Longrightarrow> count_list es (Free p) = 0"
  by (induction es) (auto simp: only_reallocs_def split: event.splits)

lemma only_reallocs_release: "only_reallocs es \<Longrightarrow> release_events es"
  by (induction es) (auto simp: only_reallocs_def release_events_def split: event.splits)

lemma mem_inv_malloc:
  fixes c :: item and es :: "event list"
  assumes "mem_inv cfg s" "item_buf_size cfg \<le> n"
  defines "s' \<equiv> s\<lparr>heap := (heap s)(Suc (allocs s) \<mapsto> \<lparr>bsize = n, content = c\<rparr>),
                   allocs := Suc (allocs s), events := es\<rparr>"
  shows "mem_inv cfg s'" "Suc (allocs s) \<notin> owned s" "owned s' = insert (Suc (allocs s)) (owned s)"
proof -
  have hp: "heap_inv cfg s" and pi: "pool_inv s" and dist: "distinct (pool_stack s)"
    and sub: "set (pool_stack s) \<subseteq> dom (heap s)"
    using assms(1) by (auto simp: mem_inv_def)
  have fresh: "Suc (allocs s) \<notin> dom (heap s)" using heap_inv_fresh [OF hp] by (simp add: domIff)
  have st: "pool_stack s' = pool_stack s" by (simp add: pool_stack_def s'_def)
  have "heap_inv cfg s'"
    using hp by (rule heap_inv_malloc [where b = "\<lparr>bsize = n, content = c\<rparr>"])
      (simp_all add: s'_def assms(2))
  moreover have "pool_inv s'" using pi by (simp add: pool_inv_def s'_def)
  ultimately show "mem_inv cfg s'" using dist sub by (auto simp: mem_inv_def st) (auto simp: s'_def)
  show "Suc (allocs s) \<notin> owned s" using fresh by (simp add: owned_def)
  show "owned s' = insert (Suc (allocs s)) (owned s)"
    using fresh sub unfolding owned_def st by (auto simp: s'_def)
qed

lemma mem_inv_malloc_fails:
  fixes es :: "event list"
  assumes "mem_inv cfg s"
  defines "s' \<equiv> s\<lparr>allocs := Suc (allocs s), events := es\<rparr>"
  shows "mem_inv cfg s'" "owned s' = owned s"
proof -
  have st: "pool_stack s' = pool_stack s" by (simp add: pool_stack_def s'_def)
  have "heap_inv cfg s'"
    using assms(1) by (auto simp: mem_inv_def s'_def intro: heap_inv_same)
  moreover have "pool_inv s'" using assms(1) by (simp add: mem_inv_def pool_inv_def s'_def)
  ultimately show "mem_inv cfg s'" using assms(1) by (simp add: mem_inv_def st) (simp add: s'_def)
  show "owned s' = owned s" by (simp add: owned_def st) (simp add: s'_def)
qed

lemma alloc2_direct:
  assumes "n > item_buf_size cfg" "alloc_oracle s (allocs s) = Some g"
  shows "item_alloc2 cfg n s =
     Inr (Suc (allocs s),
          s\<lparr>heap := (heap s)(Suc (allocs s) \<mapsto> \<lparr>bsize = n, content = zero_item\<rparr>),
            allocs := Suc (allocs s),
            events := events s @ [Malloc n (Suc (allocs s))]\<rparr>)"
  using assms by (simp add: item_alloc2_def c_malloc_def c_memset0_def)

lemma alloc2_direct_fails:
  assumes "n > item_buf_size cfg" "alloc_oracle s (allocs s) = None"
  shows "item_alloc2 cfg n s =
     Inr (0, s\<lparr>allocs := Suc (allocs s), events := events s @ [Malloc n 0]\<rparr>)"
  using assms by (simp add: item_alloc2_def c_malloc_def)

lemma alloc2_pool:
  assumes "\<not> n > item_buf_size cfg"
  shows "item_alloc2 cfg n s = do_item_from_freelist cfg s"
  using assms
  by (auto simp: item_alloc2_def item_from_freelist_def split: sum.splits)

lemma item_alloc2_mem_inv:
  assumes "mem_inv cfg s"
  shows "\<exists>it s'. item_alloc2 cfg n s = Inr (it, s') \<and> mem_inv cfg s' \<and>
     alloc_oracle s' = alloc_oracle s \<and>
     (if it = 0 then owned s' = owned s \<and> alloc_oracle s (allocs s) = None
      else it \<notin> owned s \<and> owned s' = insert it (owned s))"
proof (cases "n > item_buf_size cfg")
  case False
  then show ?thesis using from_freelist_mem_inv [OF assms] by (simp add: alloc2_pool)
next
  case True
  then have le: "item_buf_size cfg \<le> n" by simp
  show ?thesis
  proof (cases "alloc_oracle s (allocs s)")
    case None
    from mem_inv_malloc_fails [OF assms] alloc2_direct_fails [OF True None] None
    show ?thesis by simp
  next
    case (Some g)
    from mem_inv_malloc [OF assms le] alloc2_direct [OF True Some]
    show ?thesis by simp
  qed
qed

lemma free_null: "item_free cfg 0 s = Inr (0, s)"
  by (simp add: item_free_def)

lemma free_oversize:
  assumes "it \<noteq> 0" "heap s it = Some b" "ITEM_ntotal cfg (content b) > item_buf_size cfg"
  shows "item_free cfg it s =
     Inr (0, s\<lparr>heap := (heap s)(it := None), events := events s @ [Free it]\<rparr>)"
  using assms by (simp add: item_free_def c_free_def)

lemma free_pooled:
  assumes "it \<noteq> 0" "heap s it = Some b" "\<not> ITEM_ntotal cfg (content b) > item_buf_size cfg"
    "do_item_add_to_freelist it s = Inr (0, s1)"
  shows "item_free cfg it s = Inr (0, s1)"
  using assms by (simp add: item_free_def item_add_to_freelist_def)

lemma free_refused:
  assumes "it \<noteq> 0" "heap s it = Some b" "\<not> ITEM_ntotal cfg (content b) > item_buf_size cfg"
    "do_item_add_to_freelist it s = Inr (r, s1)" "r \<noteq> 0" "heap s1 = heap s"
  shows "item_free cfg it s =
     Inr (0, s1\<lparr>heap := (heap s1)(it := None), events := events s1 @ [Free it]\<rparr>)"
  using assms by (simp add: item_free_def item_add_to_freelist_def c_free_def)

lemma mem_inv_free:
  fixes es :: "event list"
  assumes "mem_inv cfg s" "it \<in> owned s"
  defines "s' \<equiv> s\<lparr>heap := (heap s)(it := None), events := es\<rparr>"
  shows "mem_inv cfg s'" "owned s' = owned s - {it}" "pool_stack s' = pool_stack s"
proof -
  have hp: "heap_inv cfg s" and pi: "pool_inv s" and dist: "distinct (pool_stack s)"
    and sub: "set (pool_stack s) \<subseteq> dom (heap s)"
    using assms(1) by (auto simp: mem_inv_def)
  have notin: "it \<notin> set (pool_stack s)" using assms(2) by (simp add: owned_def)
  show st: "pool_stack s' = pool_stack s" by (simp add: pool_stack_def s'_def)
  have "heap_inv cfg s'"
    using hp by (rule heap_inv_free [where p = it]) (simp_all add: s'_def)
  moreover have "pool_inv s'" using pi by (simp add: pool_inv_def s'_def)
  moreover have "set (pool_stack s) \<subseteq> dom (heap s')" using sub notin by (auto simp: s'_def)
  ultimately show "mem_inv cfg s'" using dist by (simp add: mem_inv_def st)
  show "owned s' = owned s - {it}" unfolding owned_def st by (auto simp: s'_def)
qed

lemma mem_inv_pooled:
  assumes "mem_inv cfg s" "it \<in> owned s" "pool_inv s'" "heap s' = heap s" "allocs s \<le> allocs s'"
    "pool_stack s' = pool_stack s @ [it]"
  shows "mem_inv cfg s'" "owned s' = owned s - {it}"
proof -
  have hp: "heap_inv cfg s" and dist: "distinct (pool_stack s)"
    and sub: "set (pool_stack s) \<subseteq> dom (heap s)"
    using assms(1) by (auto simp: mem_inv_def)
  have notin: "it \<notin> set (pool_stack s)" and live: "it \<in> dom (heap s)"
    using assms(2) by (simp_all add: owned_def)
  have "heap_inv cfg s'" using hp assms(4,5) by (rule heap_inv_same)
  then show "mem_inv cfg s'" using assms(3,4,6) dist sub notin live by (simp add: mem_inv_def)
  show "owned s' = owned s - {it}" unfolding owned_def assms(4,6) by auto
qed

lemma mem_inv_refused:
  assumes "mem_inv cfg s" "pool_inv s'" "heap s' = heap s" "allocs s \<le> allocs s'"
    "pool_stack s' = pool_stack s"
  shows "mem_inv cfg s'" "owned s' = owned s"
proof -
  have hp: "heap_inv cfg s" and dist: "distinct (pool_stack s)"
    and sub: "set (pool_stack s) \<subseteq> dom (heap s)"
    using assms(1) by (auto simp: mem_inv_def)
  have "heap_inv cfg s'" using hp assms(3,4) by (rule heap_inv_same)
  then show "mem_inv cfg s'" using assms(2,3,5) dist sub by (simp add: mem_inv_def)
  show "owned s' = owned s" unfolding owned_def assms(3,5) by simp
qed

lemma item_free_mem_inv:
  assumes "mem_inv cfg s" "it \<in> owned s" "heap s it = Some b"
  shows "\<exists>s' es. item_free cfg it s = Inr (0, s') \<and> mem_inv cfg s' \<and>
     alloc_oracle s' = alloc_oracle s \<and> owned s' = owned s - {it} \<and>
     allocs s \<le> allocs s' \<and>
     events s' = events s @ es \<and> release_events es \<and>
     count_list (pool_stack s') it + count_list es (Free it) = 1 \<and>
     (if ITEM_ntotal cfg (content b) > item_buf_size cfg
      then s' = s\<lparr>heap := (heap s)(it := None), events := events s @ [Free it]\<rparr>
      else (\<exists>r s1. do_item_add_to_freelist it s = Inr (r, s1) \<and>
             (if r = 0 then s' = s1 \<and> pool_stack s' = pool_stack s @ [it]
              else s' = s1\<lparr>heap := (heap s1)(it := None), events := events s1 @ [Free it]\<rparr> \<and>
                   pool_stack s' = pool_stack s)))"
proof -
  have hp: "heap_inv cfg s" using assms(1) by (simp add: mem_inv_def)
  note b = assms(3)
  from assms(2) have notin: "it \<notin> set (pool_stack s)"
    by (auto simp: owned_def)
  from hp b have nz: "it \<noteq> 0" by (auto simp: heap_inv_def)
  have c0: "count_list (pool_stack s) it = 0" using notin by (simp add: count_list_0_iff)
  show ?thesis
  proof (cases "ITEM_ntotal cfg (content b) > item_buf_size cfg")
    case True
    let ?s' = "s\<lparr>heap := (heap s)(it := None), events := events s @ [Free it]\<rparr>"
    note w = mem_inv_free [OF assms(1,2), of "events s @ [Free it]"]
    have "release_events [Free it]" by (simp add: release_events_def)
    moreover have "count_list (pool_stack ?s') it + count_list [Free it] (Free it) = 1"
      using c0 w(3) by simp
    ultimately show ?thesis using free_oversize [OF nz b True] w(1,2) True
      by (intro exI [of _ ?s'] exI [of _ "[Free it]"]) simp
  next
    case False
    from add_summary [OF mem_inv_pool_inv [OF assms(1)], of it] obtain r s1 es where
      a: "do_item_add_to_freelist it s = Inr (r, s1)" "pool_inv s1" "heap s1 = heap s"
        "alloc_oracle s1 = alloc_oracle s" "allocs s \<le> allocs s1"
        "events s1 = events s @ es" "only_reallocs es" "r = 0 \<or> r = 1"
        "pool_stack s1 = (if r = 0 then pool_stack s @ [it] else pool_stack s)"
      by blast
    show ?thesis
    proof (cases "r = 0")
      case True
      with a have st: "pool_stack s1 = pool_stack s @ [it]" by simp
      note w = mem_inv_pooled [OF assms(1,2) a(2,3,5) st]
      have "count_list (pool_stack s1) it + count_list es (Free it) = 1"
        using c0 st only_reallocs_no_free [OF a(7)] by simp
      then show ?thesis
        using free_pooled [OF nz b False a(1) [unfolded True]] w a(4,5,6)
          only_reallocs_release [OF a(7)] False a(1) True st
        by (intro exI [of _ s1] exI [of _ es]) simp
    next
      case r: False
      with a have st: "pool_stack s1 = pool_stack s" by simp
      note w1 = mem_inv_refused [OF assms(1) a(2,3,5) st]
      let ?s' = "s1\<lparr>heap := (heap s1)(it := None), events := events s1 @ [Free it]\<rparr>"
      have own1: "it \<in> owned s1" using assms(2) w1(2) by simp
      note w = mem_inv_free [OF w1(1) own1, of "events s1 @ [Free it]"]
      have nm: "release_events (es @ [Free it])"
        using only_reallocs_release [OF a(7)] by (simp add: release_events_def)
      have "count_list (pool_stack ?s') it + count_list (es @ [Free it]) (Free it) = 1"
        using c0 st w(3) only_reallocs_no_free [OF a(7)] by simp
      then show ?thesis
        using free_refused [OF nz b False a(1) r a(3)] w w1(2) a(4,5,6) nm False a(1) r st
        by (intro exI [of _ ?s'] exI [of _ "es @ [Free it]"]) simp
    qed
  qed
qed

lemma db_write_unchanged:
  "alloc_oracle (db_write it w s) = alloc_oracle s"
  "allocs (db_write it w s) = allocs s"
  "events (db_write it w s) = events s"
  "freeitem (db_write it w s) = freeitem s"
  "freeitemcurr (db_write it w s) = freeitemcurr s"
  "freeitemtotal (db_write it w s) = freeitemtotal s"
  "dom (heap (db_write it w s)) = dom (heap s)"
  "map_option bsize (heap (db_write it w s) p) = map_option bsize (heap s p)"
  by (cases w; cases "heap s it"; auto simp: db_write_def)+

lemma heap_inv_db_write:
  assumes "heap_inv cfg s"
  shows "heap_inv cfg (db_write it w s)"
proof (cases w)
  case None
  then show ?thesis using assms by (simp add: db_write_def)
next
  case (Some c)
  show ?thesis
  proof (cases "heap s it")
    case None
    then show ?thesis using assms Some by (simp add: db_write_def)
  next
    case (Some b)
    have "heap (db_write it w s) = (heap s)(it \<mapsto> b\<lparr>content := c\<rparr>)"
      using Some \<open>w = Some c\<close> by (simp add: db_write_def)
    with assms Some show ?thesis
      by (rule heap_inv_content) (simp add: db_write_unchanged)
  qed
qed

lemma db_write_mem_inv:
  fixes es :: "event list" and it :: addr and w :: "item option"
  assumes "mem_inv cfg s"
  defines "s0 \<equiv> db_write it w (s\<lparr>events := es\<rparr>)"
  shows "mem_inv cfg s0" "owned s0 = owned s" "alloc_oracle s0 = alloc_oracle s"
    "pool_stack s0 = pool_stack s" "events s0 = es" "allocs s0 = allocs s"
    "map_option bsize (heap s0 p) = map_option bsize (heap s p)"
proof -
  show "map_option bsize (heap s0 p) = map_option bsize (heap s p)"
    "alloc_oracle s0 = alloc_oracle s" "events s0 = es" "allocs s0 = allocs s"
    by (simp_all add: s0_def db_write_unchanged)
  show st: "pool_stack s0 = pool_stack s"
    by (simp add: s0_def pool_stack_def db_write_unchanged)
  have d: "dom (heap s0) = dom (heap s)"
    by (simp add: s0_def db_write_unchanged)
  show "owned s0 = owned s" by (simp add: owned_def st d)
  have "heap_inv cfg (s\<lparr>events := es\<rparr>)"
    using assms(1) by (auto simp: mem_inv_def intro: heap_inv_same)
  then have "heap_inv cfg s0" unfolding s0_def by (rule heap_inv_db_write)
  moreover have "pool_inv s0"
    using assms(1) by (simp add: mem_inv_def pool_inv_def s0_def db_write_unchanged)
  ultimately show "mem_inv cfg s0" using assms(1) by (simp add: mem_inv_def st d)
qed

lemma item_get_loop_owns:
  assumes "mem_inv cfg s" "it \<in> owned s"
  shows "case item_get_loop cfg rs key nk it ulen s of
           Returned p s' \<Rightarrow>
             mem_inv cfg s' \<and> alloc_oracle s' = alloc_oracle s \<and>
             (if p = 0 then owned s' = owned s - {it} else holds_one s it p s')
         | Waiting p s' \<Rightarrow>
             mem_inv cfg s' \<and> alloc_oracle s' = alloc_oracle s \<and> holds_one s it p s'
         | Crashed f \<Rightarrow> False"
  using assms
proof (induction rs arbitrary: it ulen s)
  case Nil
  let ?s' = "s\<lparr>events := events s @ [DbGet key (ucast nk) it ulen]\<rparr>"
  from db_write_mem_inv [OF Nil(1), of it None "events s @ [DbGet key (ucast nk) it ulen]"]
  have "mem_inv cfg ?s'" "owned ?s' = owned s" by (simp_all add: db_write_def)
  moreover have "it \<noteq> 0" using Nil by (auto simp: mem_inv_def heap_inv_def owned_def)
  ultimately show ?case using Nil(2) by (auto simp: holds_one_def)
next
  case (Cons r rs)
  let ?s0 = "db_write it (written r) (s\<lparr>events := events s @ [DbGet key (ucast nk) it ulen]\<rparr>)"
  note w0 = db_write_mem_inv [OF Cons.prems(1), of it "written r" "events s @ [DbGet key (ucast nk) it ulen]"]
  have own0: "it \<in> owned ?s0" using Cons.prems(2) w0(2) by simp
  have nz: "it \<noteq> 0" using Cons.prems by (auto simp: mem_inv_def heap_inv_def owned_def)
  from own0 obtain b0 where "heap ?s0 it = Some b0" by (auto simp: owned_def)
  from item_free_mem_inv [OF w0(1) own0 this] obtain s1 es where
    f: "item_free cfg it ?s0 = Inr (0, s1)" "mem_inv cfg s1" "alloc_oracle s1 = alloc_oracle ?s0"
      "owned s1 = owned ?s0 - {it}"
    by blast
  show ?case
  proof (cases "status r")
    case DB_SUCCESS
    then show ?thesis using w0 Cons.prems(2) nz by (auto simp: holds_one_def Let_def)
  next
    case DB_NOTFOUND
    then show ?thesis using f w0 by (simp add: Let_def)
  next
    case (DB_FAILURE e)
    then show ?thesis using f w0 by (simp add: Let_def)
  next
    case DB_BUFFER_SMALL
    from item_alloc2_mem_inv [OF f(2), of "ucast (dsize r)"] obtain it' s2 where
      a: "item_alloc2 cfg (ucast (dsize r)) s1 = Inr (it', s2)" "mem_inv cfg s2"
        "alloc_oracle s2 = alloc_oracle s1"
        "if it' = 0 then owned s2 = owned s1 \<and> alloc_oracle s1 (allocs s1) = None
         else it' \<notin> owned s1 \<and> owned s2 = insert it' (owned s1)"
      by blast
    show ?thesis
    proof (cases "it' = 0")
      case True
      then show ?thesis using DB_BUFFER_SMALL f a w0 by (simp add: Let_def)
    next
      case False
      with a(4) have own2: "it' \<in> owned s2" and o2: "owned s2 = insert it' (owned s1)"
        and fresh: "it' \<notin> owned s1" by auto
      have base: "owned s2 - {it'} = owned s - {it}" using o2 fresh f(4) w0(2) by auto
      have eq: "item_get_loop cfg (r # rs) key nk it ulen s =
                item_get_loop cfg rs key nk it' (dsize r) s2"
        using DB_BUFFER_SMALL f(1) a(1) False by (simp add: Let_def)
      have orc: "alloc_oracle s2 = alloc_oracle s" using a(3) f(3) w0(3) by simp
      from Cons.IH [OF a(2) own2, of "dsize r"] show ?thesis
        unfolding eq by (auto simp: holds_one_def base orc split: get_outcome.splits)
    qed
  qed
qed

lemma item_init_fields:
  assumes "alloc_oracle s (allocs s) = Some g"
  shows "freeitemtotal (item_init s) = 500" "freeitemcurr (item_init s) = 0"
    "freeitem (item_init s) = replicate 500 0" "heap (item_init s) = heap s"
    "allocs (item_init s) = Suc (allocs s)" "alloc_oracle (item_init s) = alloc_oracle s"
    "events (item_init s) = events s" "pool_stack (item_init s) = []"
  using assms by (simp_all add: item_init_def INIT_ITEM_FREELIST_LENGTH_def pool_stack_def)

lemma item_init_mem_inv:
  assumes "heap_inv cfg s" "alloc_oracle s (allocs s) = Some g"
  shows "mem_inv cfg (item_init s)"
proof -
  note f = item_init_fields [OF assms(2)]
  have "pool_inv (item_init s)" using f by (simp add: pool_inv_def)
  moreover have "heap_inv cfg (item_init s)" using assms(1) f by (auto intro: heap_inv_same)
  ultimately show ?thesis by (simp add: mem_inv_def f)
qed

lemma heap_inv_boot: "heap_inv cfg boot"
  by (simp add: heap_inv_def boot_def)

lemma boot_oracle: "alloc_oracle boot (allocs boot) = Some zero_item"
  by (simp add: boot_def)

lemma started_mem_inv: "mem_inv cfg started"
  unfolding started_def by (rule item_init_mem_inv [OF heap_inv_boot boot_oracle])

lemma started_fields:
  "pool_stack started = []" "freeitemtotal started = 500"
  "freeitemcurr started = 0" "heap started = Map.empty" "allocs started = 1"
  "alloc_oracle started = (\<lambda>n. Some zero_item)" "events started = []"
  "freeitem started = replicate 500 0"
  using item_init_fields [OF boot_oracle] by (simp_all add: started_def) (simp_all add: boot_def)

lemma release_all_inv:
  "pool_inv s \<Longrightarrow>
   \<exists>rs s'. release_all its s = Inr (rs, s') \<and> pool_inv s' \<and> length rs = length its \<and>
     freeitemtotal s \<le> freeitemtotal s'"
proof (induction its arbitrary: s)
  case Nil
  then show ?case by simp
next
  case (Cons it its)
  from add_summary [OF Cons.prems, of it] obtain r s1 where
    a: "do_item_add_to_freelist it s = Inr (r, s1)" "pool_inv s1" by blast
  have mono: "freeitemtotal s \<le> freeitemtotal s1"
  proof (cases "freeitemcurr s < freeitemtotal s")
    case True
    from add_room [OF Cons.prems True, of it] a(1) show ?thesis by auto
  next
    case full: False
    show ?thesis
    proof (cases "freeitemtotal s \<ge> 4000")
      case True
      from add_at_max [OF full True, of it] a(1) show ?thesis by simp
    next
      case False
      then have lt: "freeitemtotal s < 4000" by simp
      have pos: "0 < freeitemtotal s" using Cons.prems by (auto simp: pool_inv_def)
      show ?thesis
      proof (cases "alloc_oracle s (allocs s)")
        case None
        from add_grow_fails [OF full lt None, of it] a(1) show ?thesis by auto
      next
        case (Some g)
        from add_grows [OF Cons.prems full lt Some, of it] a(1) pos show ?thesis by auto
      qed
    qed
  qed
  from Cons.IH [OF a(2)] obtain rs s' where
    "release_all its s1 = Inr (rs, s')" "pool_inv s'" "length rs = length its"
    "freeitemtotal s1 \<le> freeitemtotal s'" by blast
  with a(1) mono show ?case by simp
qed

lemma pool_stack_nonempty: "pool_stack s \<noteq> [] \<Longrightarrow> freeitemcurr s > 0"
  by (cases "freeitemcurr s > 0") (simp_all add: pool_stack_def)

lemma one_buffer_mem_inv: "mem_inv example_settings one_buffer"
proof -
  have "pool_inv one_buffer"
    using started_mem_inv [of example_settings]
    by (simp add: mem_inv_def pool_inv_def one_buffer_def)
  moreover have "heap_inv example_settings one_buffer"
    by (simp add: heap_inv_def one_buffer_def example_settings_def)
  moreover have "pool_stack one_buffer = []"
    by (simp add: pool_stack_def one_buffer_def started_fields)
  ultimately show ?thesis by (simp add: mem_inv_def)
qed

lemma one_buffer_owned: "owned one_buffer = {2}"
  by (simp add: owned_def pool_stack_def one_buffer_def started_fields)

lemma owned_nonnull: "mem_inv cfg s \<Longrightarrow> it \<in> owned s \<Longrightarrow> it \<noteq> 0"
  by (auto simp: mem_inv_def heap_inv_def owned_def)

lemma item_get_loop_paths:
  fixes r :: get_reply and key :: string and nk :: size_t and ulen :: u_int32_t
  assumes "mem_inv cfg s" "it \<in> owned s"
  defines "s0 \<equiv> db_write it (written r) (s\<lparr>events := events s @ [DbGet key (ucast nk) it ulen]\<rparr>)"
  shows "case status r of
           DB_SUCCESS \<Rightarrow>
             item_get_loop cfg (r # rs) key nk it ulen s = Returned it s0 \<and> it \<in> owned s0
         | DB_BUFFER_SMALL \<Rightarrow>
             (\<exists>s1 it' s2. item_free cfg it s0 = Inr (0, s1) \<and> owned s1 = owned s - {it} \<and>
                item_alloc2 cfg (ucast (dsize r)) s1 = Inr (it', s2) \<and>
                item_get_loop cfg (r # rs) key nk it ulen s =
                  (if it' = 0 then Returned 0 s2
                   else item_get_loop cfg rs key nk it' (dsize r) s2))
         | _ \<Rightarrow>
             (\<exists>s'. item_free cfg it s0 = Inr (0, s') \<and> owned s' = owned s - {it} \<and>
                item_get_loop cfg (r # rs) key nk it ulen s = Returned 0 s')"
proof -
  note w0 = db_write_mem_inv [OF assms(1), of it "written r"
      "events s @ [DbGet key (ucast nk) it ulen]", folded s0_def]
  have own0: "it \<in> owned s0" using assms(2) w0(2) by simp
  then obtain b0 where "heap s0 it = Some b0" by (auto simp: owned_def)
  from item_free_mem_inv [OF w0(1) own0 this] obtain s1 where
    f: "item_free cfg it s0 = Inr (0, s1)" "mem_inv cfg s1" "owned s1 = owned s0 - {it}"
    by blast
  have o1: "owned s1 = owned s - {it}" using f(3) w0(2) by simp
  show ?thesis
  proof (cases "status r")
    case DB_SUCCESS
    then show ?thesis using own0 by (simp add: Let_def s0_def)
  next
    case DB_NOTFOUND
    then show ?thesis using f(1) o1 by (simp add: Let_def s0_def [symmetric])
  next
    case (DB_FAILURE e)
    then show ?thesis using f(1) o1 by (simp add: Let_def s0_def [symmetric])
  next
    case DB_BUFFER_SMALL
    from item_alloc2_mem_inv [OF f(2), of "ucast (dsize r)"] obtain it' s2 where
      a: "item_alloc2 cfg (ucast (dsize r)) s1 = Inr (it', s2)" by blast
    have "item_get_loop cfg (r # rs) key nk it ulen s =
                  (if it' = 0 then Returned 0 s2
                   else item_get_loop cfg rs key nk it' (dsize r) s2)"
      using DB_BUFFER_SMALL f(1) a by (simp add: Let_def s0_def [symmetric])
    then show ?thesis using DB_BUFFER_SMALL f(1) o1 a by simp
  qed
qed

lemma item_get_owns:
  assumes "mem_inv cfg s"
  shows "case item_get cfg rs key nk s of
            Returned p s' \<Rightarrow>
              mem_inv cfg s' \<and>
              (if p = 0 then owned s' = owned s
               else p \<notin> owned s \<and> owned s' = insert p (owned s))
          | Waiting p s' \<Rightarrow>
              mem_inv cfg s' \<and> p \<noteq> 0 \<and> p \<notin> owned s \<and> owned s' = insert p (owned s)
          | Crashed f \<Rightarrow> False"
proof -
  from item_alloc2_mem_inv [OF assms, of "item_buf_size cfg"] obtain it s1 where
    a: "item_alloc2 cfg (item_buf_size cfg) s = Inr (it, s1)" "mem_inv cfg s1"
       "if it = 0 then owned s1 = owned s \<and> alloc_oracle s (allocs s) = None
        else it \<notin> owned s \<and> owned s1 = insert it (owned s)"
    by blast
  show ?thesis
  proof (cases "it = 0")
    case True
    then show ?thesis using a by (simp add: item_get_def)
  next
    case False
    with a(3) have own: "it \<in> owned s1" and base: "owned s1 - {it} = owned s" by auto
    have eq: "item_get cfg rs key nk s =
               item_get_loop cfg rs key nk it (ucast (item_buf_size cfg)) s1"
      using a(1) False by (simp add: item_get_def)
    from item_get_loop_owns [OF a(2) own, of rs key nk "ucast (item_buf_size cfg)"]
    show ?thesis unfolding eq
      by (auto simp: holds_one_def base split: get_outcome.splits)
  qed
qed

lemma item_get_loop_conflates:
  "item_get_loop cfg (map as_notfound rs) key nk it ulen s = item_get_loop cfg rs key nk it ulen s"
proof (induction rs arbitrary: it ulen s)
  case Nil
  show ?case by simp
next
  case (Cons r rs)
  show ?case
  proof (cases "status r")
    case (DB_FAILURE e)
    then show ?thesis by (simp add: as_notfound_def Let_def)
  next
    case DB_SUCCESS
    then show ?thesis by (simp add: as_notfound_def Let_def)
  next
    case DB_NOTFOUND
    then show ?thesis by (simp add: as_notfound_def Let_def)
  next
    case DB_BUFFER_SMALL
    then have "as_notfound r = r" by (simp add: as_notfound_def)
    then show ?thesis
      by (simp add: Let_def Cons.IH split: sum.splits prod.splits db_status.splits)
  qed
qed

lemma dec_nat_length: "0 < k \<Longrightarrow> n < 10 ^ k \<Longrightarrow> length (dec_nat n) \<le> k"
proof (induction k arbitrary: n)
  case 0
  then show ?case by simp
next
  case (Suc k)
  show ?case
  proof (cases "n < 10")
    case True
    then show ?thesis by (subst dec_nat.simps) simp
  next
    case False
    then have k: "0 < k" using Suc.prems by (cases k) auto
    have "n div 10 < 10 ^ k" using Suc.prems by (simp add: less_mult_imp_div_less mult.commute)
    from Suc.IH [OF k this] False show ?thesis by (subst dec_nat.simps) simp
  qed
qed

lemma show_int_length:
  fixes x :: c_int
  shows "length (show_int (sint x)) \<le> 11"
proof -
  have b: "- (2 ^ 31) \<le> sint x" "sint x < 2 ^ 31"
    using sint_ge [of x] sint_lt [of x] by simp_all
  show ?thesis
  proof (cases "sint x < 0")
    case True
    have "nat (- sint x) < 10 ^ 10" using b by simp
    from dec_nat_length [OF _ this] True show ?thesis by (simp add: show_int_def)
  next
    case False
    have "nat (sint x) < 10 ^ 10" using b by simp
    from dec_nat_length [OF _ this] False show ?thesis by (simp add: show_int_def)
  qed
qed

lemma suffix_format_length: "length (suffix_format a b) \<le> 26"
  using show_int_length [of a] show_int_length [of b] by (simp add: suffix_format_def)

lemma item_make_header_eq:
  "item_make_header cfg k flags nb =
     (sizeof_item cfg + ucast k + ucast (word_of_nat (length (suffix_format flags (nb - 2))) :: uint8_t)
        + scast nb,
      suffix_format flags (nb - 2),
      word_of_nat (length (suffix_format flags (nb - 2))))"
  using suffix_format_length [of flags "nb - 2"]
  by (simp add: item_make_header_def c_snprintf_def Let_def)

lemma nsuffix_exact: "unat (word_of_nat (length (suffix_format a b)) :: uint8_t) = length (suffix_format a b)"
  using suffix_format_length [of a b] by (simp add: unat_of_nat)









lemma item_get_resize_example:
  "case item_get example_settings
          [\<lparr>status = DB_BUFFER_SMALL, dsize = 5000, written = None\<rparr>,
           \<lparr>status = DB_SUCCESS, dsize = 5000, written = None\<rparr>] ''k'' 1 started of
     Returned p s' \<Rightarrow>
       p = 3 \<and> pool_stack s' = [2] \<and>
       events s' = [Malloc 2048 2, DbGet ''k'' 1 2 2048, Malloc 5000 3, DbGet ''k'' 1 3 5000]
   | Waiting p s' \<Rightarrow> False
   | Crashed f \<Rightarrow> False"
  by (simp add: item_get_def item_alloc2_def item_from_freelist_def
        do_item_from_freelist_def c_malloc_def c_memset0_def started_fields
        example_settings_def Let_def item_free_def db_write_def zero_item_def
        item_add_to_freelist_def do_item_add_to_freelist_def freeitem_store_def
        pool_stack_def take_Suc_update)

text \<open>One iteration of the loop of \<^verbatim>\<open>item_get\<close> at an answer \<^verbatim>\<open>DB_BUFFER_SMALL\<close>.\<close>

lemma item_get_loop_resize:
  fixes r :: get_reply and key :: string and nk :: size_t and ulen :: u_int32_t
  assumes "mem_inv cfg t" "it \<in> owned t" "status r = DB_BUFFER_SMALL"
  shows "\<exists>s1 it' s2.
         item_free cfg it (db_write it (written r)
            (t\<lparr>events := events t @ [DbGet key (ucast nk) it ulen]\<rparr>)) = Inr (0, s1) \<and>
         owned s1 = owned t - {it} \<and>
         item_alloc2 cfg (ucast (dsize r)) s1 = Inr (it', s2) \<and>
         mem_inv cfg s2 \<and> (it' = 0 \<or> it' \<in> owned s2) \<and>
         item_get_loop cfg (r # rs) key nk it ulen t =
           (if it' = 0 then Returned 0 s2
            else item_get_loop cfg rs key nk it' (dsize r) s2)"
proof -
  let ?s0 = "db_write it (written r) (t\<lparr>events := events t @ [DbGet key (ucast nk) it ulen]\<rparr>)"
  note w0 = db_write_mem_inv [OF assms(1), of it "written r"
      "events t @ [DbGet key (ucast nk) it ulen]"]
  have own0: "it \<in> owned ?s0" using assms(2) w0(2) by simp
  then obtain b0 where "heap ?s0 it = Some b0" by (auto simp: owned_def)
  from item_free_mem_inv [OF w0(1) own0 this] obtain s1 where
    f: "item_free cfg it ?s0 = Inr (0, s1)" "mem_inv cfg s1" "owned s1 = owned ?s0 - {it}"
    by blast
  have o1: "owned s1 = owned t - {it}" using f(3) w0(2) by simp
  from item_alloc2_mem_inv [OF f(2), of "ucast (dsize r)"] obtain it' s2 where
    a: "item_alloc2 cfg (ucast (dsize r)) s1 = Inr (it', s2)" "mem_inv cfg s2"
      "if it' = 0 then owned s2 = owned s1 \<and> alloc_oracle s1 (allocs s1) = None
       else it' \<notin> owned s1 \<and> owned s2 = insert it' (owned s1)"
    by blast
  have own2: "it' = 0 \<or> it' \<in> owned s2" using a(3) by (cases "it' = 0") simp_all
  have "item_get_loop cfg (r # rs) key nk it ulen t =
          (if it' = 0 then Returned 0 s2
           else item_get_loop cfg rs key nk it' (dsize r) s2)"
    using assms(3) f(1) a(1) by (simp add: Let_def)
  with f(1) o1 a(1,2) own2 show ?thesis by blast
qed






lemma item_alloc1_alt:
  "item_alloc1 cfg key nk flags nb s =
     (case item_make_header cfg (ucast (nk + 1)) flags nb of
        (ntotal, suffix, ns) \<Rightarrow>
          (case item_alloc2 cfg ntotal s of
             Inl f \<Rightarrow> Inl f
           | Inr (it, s1) \<Rightarrow>
               if it = 0 then Inr (0, s1)
               else
                 (case heap s1 it of
                    None \<Rightarrow> Inl BadPointer
                  | Some b \<Rightarrow>
                      (let b1 = b\<lparr>content := (content b)\<lparr>nkey := ucast nk, nbytes := nb\<rparr>\<rparr>
                       in case write_body cfg (ITEM_key (content b1))
                                 (cstring key @ [CHR 0x00]) b1 of
                            Inl f \<Rightarrow> Inl f
                          | Inr b2 \<Rightarrow>
                              (case write_body cfg (ITEM_suffix (content b2))
                                      (take (unat ns) suffix) b2 of
                                 Inl f \<Rightarrow> Inl f
                               | Inr b3 \<Rightarrow>
                                   Inr (it, s1\<lparr>heap := (heap s1)(it \<mapsto>
                                          b3\<lparr>content := (content b3)\<lparr>nsuffix := ns\<rparr>\<rparr>)\<rparr>))))))"
  by (simp add: item_alloc1_def item_alloc2_def)





text \<open>A key of 255 bytes: \<^verbatim>\<open>nkey + 1\<close> becomes 0 in the byte parameter of
  \<^verbatim>\<open>item_make_header\<close>, so the buffer is sized without the key, while the header field
  \<^verbatim>\<open>nkey\<close> is 255 and \<^verbatim>\<open>item_put\<close> passes 256 bytes more than were allocated.\<close>

lemma item_make_header_wrapped_example:
  "item_make_header example_settings 256 0 3000 =
     (3017, [CHR '' '', CHR ''0'', CHR '' '', CHR ''2'', CHR ''9'', CHR ''9'', CHR ''8'',
             CHR 0x0D, CHR 0x0A], 9)"
  by (simp add: item_make_header_eq suffix_format_def show_int_def dec_nat.simps digit_char_def
      example_settings_def)

lemma item_alloc1_key_255_example:
  "case item_alloc1 example_settings (replicate 255 (CHR ''a'')) 255 0 3000 started of
     Inl f \<Rightarrow> False
   | Inr (it, s') \<Rightarrow>
       it = 2 \<and> map_option bsize (heap s' it) = Some 3017 \<and>
       (case item_put example_settings DB_SUCCESS (replicate 255 (CHR ''a'')) 255 it s' of
          Inl f \<Rightarrow> False
        | Inr (r, s'') \<Rightarrow>
            last (events s'') = DbPut (replicate 255 (CHR ''a'')) 255 2 3273)"
  by (simp add: item_alloc1_alt item_make_header_wrapped_example item_alloc2_def
      c_malloc_def c_memset0_def started_fields item_put_def
      zero_item_def Let_def write_body_def ITEM_key_def ITEM_suffix_def cstring_def
      takeWhile_replicate)
    (simp add: example_settings_def)

subsection \<open>Deleting and probing\<close>

text \<open>
  C8. \<^verbatim>\<open>item_delete\<close> has three results, which differ from one another: 0 (success)
  exactly when the store deleted the record, 1 (not found) exactly when the store reports
  that the key is absent, and -1 (error) for every other code of the store. So deleting an
  absent key gives "not found" and not "error".
\<close>

theorem item_delete_tristate:
  "item_delete DB_SUCCESS key n = 0 \<and>
   item_delete DB_NOTFOUND key n = 1 \<and>
   item_delete DB_BUFFER_SMALL key n = - 1 \<and>
   item_delete (DB_FAILURE e) key n = - 1 \<and>
   (item_delete ret key n = 0 \<longleftrightarrow> ret = DB_SUCCESS) \<and>
   (item_delete ret key n = 1 \<longleftrightarrow> ret = DB_NOTFOUND) \<and>
   (item_delete ret key n = - 1 \<longleftrightarrow> ret \<noteq> DB_SUCCESS \<and> ret \<noteq> DB_NOTFOUND) \<and>
   item_delete DB_NOTFOUND key n \<noteq> item_delete (DB_FAILURE e) key n"
  by (simp add: item_delete_def)

text \<open>
  C10. \<^verbatim>\<open>item_exists\<close> returns 1 exactly when the store's \<^verbatim>\<open>exists\<close> returns the code
  of success and 0 for every other code, so an error of the store and an absent key give
  the caller the same result.
\<close>

theorem item_exists_only_success:
  "(item_exists ret key n = 1 \<longleftrightarrow> ret = DB_SUCCESS) \<and>
   (item_exists ret key n = 0 \<longleftrightarrow> ret \<noteq> DB_SUCCESS) \<and>
   item_exists (DB_FAILURE e) key n = item_exists DB_NOTFOUND key n"
  by (simp add: item_exists_def)


subsection \<open>The freelist\<close>

text \<open>
  C6. In every state reached from \<^verbatim>\<open>item_init\<close> (\<open>pool_inv\<close>, which
  \<^verbatim>\<open>item_init\<close> establishes with a capacity of 500 when its allocation succeeds), any
  sequence of calls of \<^verbatim>\<open>do_item_add_to_freelist\<close> runs without a fault and leaves a
  capacity that has not shrunk and is at most the hard maximum 4000. A single call: with
  room left it appends and returns 0, the capacity unchanged; with the capacity exhausted
  below the maximum and \<^verbatim>\<open>realloc\<close> succeeding it doubles the capacity once, appends and
  returns 0; with the capacity exhausted at the maximum it returns 1 and changes nothing;
  with \<^verbatim>\<open>realloc\<close> failing it returns 1 and the freelist is as before.
\<close>

theorem release_grows_to_hard_maximum:
  assumes "pool_inv s"
  shows "(\<exists>rs s'. release_all its s = Inr (rs, s') \<and> length rs = length its \<and>
            freeitemtotal s \<le> freeitemtotal s' \<and>
            freeitemtotal s' \<le> MAX_ITEM_FREELIST_LENGTH \<and>
            freeitemcurr s' \<le> freeitemtotal s') \<and>
         (freeitemcurr s < freeitemtotal s \<longrightarrow>
            (\<exists>s'. do_item_add_to_freelist it s = Inr (0, s') \<and>
               freeitemtotal s' = freeitemtotal s \<and> pool_stack s' = pool_stack s @ [it])) \<and>
         (freeitemcurr s = freeitemtotal s \<and> freeitemtotal s < MAX_ITEM_FREELIST_LENGTH \<and>
          alloc_oracle s (allocs s) \<noteq> None \<longrightarrow>
            (\<exists>s'. do_item_add_to_freelist it s = Inr (0, s') \<and>
               freeitemtotal s' = 2 * freeitemtotal s \<and> pool_stack s' = pool_stack s @ [it])) \<and>
         (freeitemcurr s = freeitemtotal s \<and> freeitemtotal s \<ge> MAX_ITEM_FREELIST_LENGTH \<longrightarrow>
            do_item_add_to_freelist it s = Inr (1, s)) \<and>
         (freeitemcurr s = freeitemtotal s \<and> freeitemtotal s < MAX_ITEM_FREELIST_LENGTH \<and>
          alloc_oracle s (allocs s) = None \<longrightarrow>
            (\<exists>s'. do_item_add_to_freelist it s = Inr (1, s') \<and>
               freeitemtotal s' = freeitemtotal s \<and> freeitemcurr s' = freeitemcurr s \<and>
               freeitem s' = freeitem s \<and> pool_stack s' = pool_stack s)) \<and>
         (alloc_oracle s0 (allocs s0) \<noteq> None \<longrightarrow>
            pool_inv (item_init s0) \<and>
            freeitemtotal (item_init s0) = INIT_ITEM_FREELIST_LENGTH \<and>
            freeitemcurr (item_init s0) = 0)"
proof (intro conjI impI)
  from release_all_inv [OF assms, of its] obtain rs s' where
    r: "release_all its s = Inr (rs, s')" "pool_inv s'" "length rs = length its"
       "freeitemtotal s \<le> freeitemtotal s'" by blast
  from r(2) have "freeitemtotal s' \<le> MAX_ITEM_FREELIST_LENGTH" "freeitemcurr s' \<le> freeitemtotal s'"
    by (auto simp: pool_inv_def MAX_ITEM_FREELIST_LENGTH_def)
  with r show "\<exists>rs s'. release_all its s = Inr (rs, s') \<and> length rs = length its \<and>
            freeitemtotal s \<le> freeitemtotal s' \<and>
            freeitemtotal s' \<le> MAX_ITEM_FREELIST_LENGTH \<and>
            freeitemcurr s' \<le> freeitemtotal s'" by blast
next
  assume "freeitemcurr s < freeitemtotal s"
  from add_room [OF assms this, of it]
  show "\<exists>s'. do_item_add_to_freelist it s = Inr (0, s') \<and>
               freeitemtotal s' = freeitemtotal s \<and> pool_stack s' = pool_stack s @ [it]"
    by blast
next
  assume a: "freeitemcurr s = freeitemtotal s \<and> freeitemtotal s < MAX_ITEM_FREELIST_LENGTH \<and>
          alloc_oracle s (allocs s) \<noteq> None"
  then obtain g where g: "alloc_oracle s (allocs s) = Some g" by auto
  from a have "\<not> freeitemcurr s < freeitemtotal s" "freeitemtotal s < 4000"
    by (simp_all add: MAX_ITEM_FREELIST_LENGTH_def)
  from add_grows [OF assms this g, of it]
  show "\<exists>s'. do_item_add_to_freelist it s = Inr (0, s') \<and>
               freeitemtotal s' = 2 * freeitemtotal s \<and> pool_stack s' = pool_stack s @ [it]"
    by blast
next
  assume a: "freeitemcurr s = freeitemtotal s \<and> freeitemtotal s \<ge> MAX_ITEM_FREELIST_LENGTH"
  then have "\<not> freeitemcurr s < freeitemtotal s" "freeitemtotal s \<ge> 4000"
    by (simp_all add: MAX_ITEM_FREELIST_LENGTH_def)
  from add_at_max [OF this] show "do_item_add_to_freelist it s = Inr (1, s)" .
next
  assume a: "freeitemcurr s = freeitemtotal s \<and> freeitemtotal s < MAX_ITEM_FREELIST_LENGTH \<and>
          alloc_oracle s (allocs s) = None"
  then have "\<not> freeitemcurr s < freeitemtotal s" "freeitemtotal s < 4000"
    "alloc_oracle s (allocs s) = None"
    by (simp_all add: MAX_ITEM_FREELIST_LENGTH_def)
  from add_grow_fails [OF this, of it]
  show "\<exists>s'. do_item_add_to_freelist it s = Inr (1, s') \<and>
               freeitemtotal s' = freeitemtotal s \<and> freeitemcurr s' = freeitemcurr s \<and>
               freeitem s' = freeitem s \<and> pool_stack s' = pool_stack s"
    by (simp add: pool_stack_def)
next
  assume "alloc_oracle s0 (allocs s0) \<noteq> None"
  then obtain g where "alloc_oracle s0 (allocs s0) = Some g" by auto
  note f = item_init_fields [OF this]
  show "pool_inv (item_init s0)" using f by (simp add: pool_inv_def)
  show "freeitemtotal (item_init s0) = INIT_ITEM_FREELIST_LENGTH"
    using f by (simp add: INIT_ITEM_FREELIST_LENGTH_def)
  show "freeitemcurr (item_init s0) = 0" using f by simp
qed

text \<open>A full freelist of capacity 500 grows to 1000 on the next release.\<close>

theorem release_grows_to_hard_maximum_witness:
  "pool_inv (started\<lparr>freeitemcurr := 500\<rparr>) \<and>
   freeitemcurr (started\<lparr>freeitemcurr := 500\<rparr>) = freeitemtotal (started\<lparr>freeitemcurr := 500\<rparr>) \<and>
   (\<exists>s'. do_item_add_to_freelist 7 (started\<lparr>freeitemcurr := 500\<rparr>) = Inr (0, s') \<and>
      freeitemtotal s' = 1000 \<and>
      pool_stack s' = pool_stack (started\<lparr>freeitemcurr := 500\<rparr>) @ [7]) \<and>
   (\<exists>rs s'. release_all [7, 8] (started\<lparr>freeitemcurr := 500\<rparr>) = Inr (rs, s') \<and>
      freeitemtotal s' \<le> 4000)"
proof -
  have p: "pool_inv (started\<lparr>freeitemcurr := 500\<rparr>)"
    using item_init_fields [OF boot_oracle] by (simp add: pool_inv_def started_def)
  show ?thesis
    using release_grows_to_hard_maximum [OF p, of "[7, 8]" 7] p
    by (simp add: started_fields MAX_ITEM_FREELIST_LENGTH_def) blast
qed

text \<open>
  C5. In a state that satisfies the invariant, \<^verbatim>\<open>do_item_from_freelist\<close> with a
  non-empty freelist removes and returns the last buffer put there: the top of the stack,
  and in particular the buffer of a release that has just succeeded, after which the
  freelist is as it was before that release. With an empty freelist it returns a new block
  of \<^verbatim>\<open>settings.item_buf_size\<close> bytes filled with zeros, or \<^verbatim>\<open>NULL\<close> when the
  allocation fails; in both cases the three variables of the freelist are unchanged, and
  after a failure so is the heap.
\<close>

theorem do_item_from_freelist_lifo:
  assumes "mem_inv cfg s"
  shows "(freeitemcurr s > 0 \<longrightarrow>
            do_item_from_freelist cfg s =
              Inr (last (pool_stack s), s\<lparr>freeitemcurr := freeitemcurr s - 1\<rparr>) \<and>
            pool_stack (s\<lparr>freeitemcurr := freeitemcurr s - 1\<rparr>) = butlast (pool_stack s)) \<and>
         (\<forall>it s1. do_item_add_to_freelist it s = Inr (0, s1) \<longrightarrow>
            (\<exists>s2. do_item_from_freelist cfg s1 = Inr (it, s2) \<and>
               pool_stack s2 = pool_stack s \<and> heap s2 = heap s)) \<and>
         (freeitemcurr s = 0 \<and> alloc_oracle s (allocs s) \<noteq> None \<longrightarrow>
            (\<exists>p s'. do_item_from_freelist cfg s = Inr (p, s') \<and> p \<noteq> 0 \<and> heap s p = None \<and>
               heap s' = (heap s)(p \<mapsto> \<lparr>bsize = item_buf_size cfg, content = zero_item\<rparr>) \<and>
               freeitem s' = freeitem s \<and> freeitemtotal s' = freeitemtotal s \<and>
               freeitemcurr s' = freeitemcurr s)) \<and>
         (freeitemcurr s = 0 \<and> alloc_oracle s (allocs s) = None \<longrightarrow>
            (\<exists>s'. do_item_from_freelist cfg s = Inr (0, s') \<and> heap s' = heap s \<and>
               freeitem s' = freeitem s \<and> freeitemtotal s' = freeitemtotal s \<and>
               freeitemcurr s' = freeitemcurr s))"
proof (intro conjI impI allI)
  note inv = mem_inv_pool_inv [OF assms]
  {
    assume pos: "freeitemcurr s > 0"
    note pop = from_pop [OF inv pos]
    show "do_item_from_freelist cfg s =
              Inr (last (pool_stack s), s\<lparr>freeitemcurr := freeitemcurr s - 1\<rparr>)"
      using pop(1) [of cfg] pop(2) by simp
    show "pool_stack (s\<lparr>freeitemcurr := freeitemcurr s - 1\<rparr>) = butlast (pool_stack s)"
      by (rule pop(3))
  }
  {
    fix it s1 assume add: "do_item_add_to_freelist it s = Inr (0, s1)"
    from add_summary [OF inv, of it] add have
      s1: "pool_inv s1" "pool_stack s1 = pool_stack s @ [it]" "heap s1 = heap s"
      by auto
    have pos: "freeitemcurr s1 > 0" using s1(2) by (intro pool_stack_nonempty) simp
    note pop = from_pop [OF s1(1) pos]
    let ?s2 = "s1\<lparr>freeitemcurr := freeitemcurr s1 - 1\<rparr>"
    have "do_item_from_freelist cfg s1 = Inr (it, ?s2)" using pop(1) [of cfg] pop(2) s1(2) by simp
    moreover have "pool_stack ?s2 = pool_stack s" using pop(3) s1(2) by simp
    moreover have "heap ?s2 = heap s" using s1(3) by simp
    ultimately show "\<exists>s2. do_item_from_freelist cfg s1 = Inr (it, s2) \<and>
               pool_stack s2 = pool_stack s \<and> heap s2 = heap s" by blast
  }
  {
    assume a: "freeitemcurr s = 0 \<and> alloc_oracle s (allocs s) \<noteq> None"
    then obtain g where g: "alloc_oracle s (allocs s) = Some g" by auto
    from a have np: "\<not> freeitemcurr s > 0" by simp
    have "heap s (Suc (allocs s)) = None"
      using assms by (intro heap_inv_fresh [of cfg]) (simp add: mem_inv_def)
    then show "\<exists>p s'. do_item_from_freelist cfg s = Inr (p, s') \<and> p \<noteq> 0 \<and> heap s p = None \<and>
               heap s' = (heap s)(p \<mapsto> \<lparr>bsize = item_buf_size cfg, content = zero_item\<rparr>) \<and>
               freeitem s' = freeitem s \<and> freeitemtotal s' = freeitemtotal s \<and>
               freeitemcurr s' = freeitemcurr s"
      using from_malloc [OF np g, of cfg] by simp
  }
  {
    assume a: "freeitemcurr s = 0 \<and> alloc_oracle s (allocs s) = None"
    then have np: "\<not> freeitemcurr s > 0" and n: "alloc_oracle s (allocs s) = None" by simp_all
    show "\<exists>s'. do_item_from_freelist cfg s = Inr (0, s') \<and> heap s' = heap s \<and>
               freeitem s' = freeitem s \<and> freeitemtotal s' = freeitemtotal s \<and>
               freeitemcurr s' = freeitemcurr s"
      using from_malloc_fails [OF np n, of cfg] by simp
  }
qed

text \<open>After \<^verbatim>\<open>item_init\<close> the freelist is empty and the first acquisition allocates; a
  buffer that has just been released is the next one acquired.\<close>

theorem do_item_from_freelist_lifo_witness:
  "mem_inv example_settings started \<and> freeitemcurr started = 0 \<and>
   alloc_oracle started (allocs started) \<noteq> None \<and>
   (\<exists>p s'. do_item_from_freelist example_settings started = Inr (p, s') \<and> p \<noteq> 0 \<and>
      heap s' = (heap started)(p \<mapsto> \<lparr>bsize = 2048, content = zero_item\<rparr>)) \<and>
   mem_inv example_settings one_buffer \<and>
   (\<exists>s1 s2. do_item_add_to_freelist 2 one_buffer = Inr (0, s1) \<and>
      do_item_from_freelist example_settings s1 = Inr (2, s2) \<and>
      pool_stack s2 = pool_stack one_buffer)"
proof -
  have "pool_inv one_buffer" "freeitemcurr one_buffer < freeitemtotal one_buffer"
    using mem_inv_pool_inv [OF one_buffer_mem_inv] by (simp_all add: one_buffer_def started_fields)
  from add_room [OF this, of 2] obtain s1 where
    s1: "do_item_add_to_freelist 2 one_buffer = Inr (0, s1)" by blast
  with do_item_from_freelist_lifo [OF one_buffer_mem_inv] obtain s2 where
    "do_item_from_freelist example_settings s1 = Inr (2, s2)"
    "pool_stack s2 = pool_stack one_buffer" by blast
  with s1 have lifo: "\<exists>s1 s2. do_item_add_to_freelist 2 one_buffer = Inr (0, s1) \<and>
      do_item_from_freelist example_settings s1 = Inr (2, s2) \<and>
      pool_stack s2 = pool_stack one_buffer" by blast
  have "\<exists>p s'. do_item_from_freelist example_settings started = Inr (p, s') \<and> p \<noteq> 0 \<and>
      heap s' = (heap started)(p \<mapsto> \<lparr>bsize = 2048, content = zero_item\<rparr>)"
    using do_item_from_freelist_lifo [OF started_mem_inv, of example_settings]
    by (simp add: started_fields example_settings_def) blast
  with lifo show ?thesis
    using started_mem_inv one_buffer_mem_inv by (simp add: started_fields)
qed

subsection \<open>Releasing an item\<close>

text \<open>
  C7. \<^verbatim>\<open>item_free\<close> on \<^verbatim>\<open>NULL\<close> returns 0 and changes nothing. On a buffer that the
  caller owns it returns 0 without a fault, and the size it computes with
  \<^verbatim>\<open>ITEM_ntotal\<close> from the header in the buffer decides what happens: above the standard
  size the buffer is freed and the freelist is not touched; otherwise the buffer is offered
  to the freelist, and it is freed only when the freelist refuses it. In every case the
  buffer leaves the caller's hands exactly once (the number of times it is in the freelist
  plus the number of times it was freed is 1), every other buffer stays where it was, and
  the invariant is kept.
\<close>

theorem item_free_releases_once:
  assumes "mem_inv cfg s" "it \<in> owned s" "heap s it = Some b"
  shows "item_free cfg 0 s = Inr (0, s) \<and>
     (\<exists>s' es. item_free cfg it s = Inr (0, s') \<and> mem_inv cfg s' \<and>
        owned s' = owned s - {it} \<and> events s' = events s @ es \<and>
        count_list (pool_stack s') it + count_list es (Free it) = 1 \<and>
        (if ITEM_ntotal cfg (content b) > item_buf_size cfg
         then s' = s\<lparr>heap := (heap s)(it := None), events := events s @ [Free it]\<rparr>
         else (\<exists>r s1. item_add_to_freelist it s = Inr (r, s1) \<and>
                (if r = 0 then s' = s1 \<and> pool_stack s' = pool_stack s @ [it]
                 else s' = s1\<lparr>heap := (heap s1)(it := None),
                              events := events s1 @ [Free it]\<rparr> \<and>
                      pool_stack s' = pool_stack s))))"
  using free_null [of cfg s] item_free_mem_inv [OF assms]
  unfolding item_add_to_freelist_def by blast

theorem item_free_releases_once_witness:
  "mem_inv example_settings one_buffer \<and> 2 \<in> owned one_buffer \<and>
   heap one_buffer 2 = Some \<lparr>bsize = 2048, content = zero_item\<rparr> \<and>
   (\<exists>s' es. item_free example_settings 2 one_buffer = Inr (0, s') \<and>
      owned s' = {} \<and>
      count_list (pool_stack s') 2 + count_list es (Free 2) = 1)"
proof -
  have h: "heap one_buffer 2 = Some \<lparr>bsize = 2048, content = zero_item\<rparr>"
    by (simp add: one_buffer_def)
  have o: "2 \<in> owned one_buffer" by (simp add: one_buffer_owned)
  from item_free_releases_once [OF one_buffer_mem_inv o h]
  show ?thesis using one_buffer_mem_inv o h by (simp add: one_buffer_owned) blast
qed

subsection \<open>Reading an item\<close>

text \<open>
  C2, as the code has it. A buffer is owned by the operation when it is allocated and not in
  the freelist (\<open>owned\<close>); releasing it, into the freelist or with \<^verbatim>\<open>free\<close>, takes it
  out of that set. In a state that satisfies the invariant, whatever the store answers and
  however many answers have arrived: \<^verbatim>\<open>item_get\<close> never faults (so nothing is released
  twice); while it waits for the store it holds exactly one buffer more than the callers
  held before; when it returns \<^verbatim>\<open>NULL\<close> the owned buffers are those from before the call
  (nothing leaked, nothing else released); when it returns a buffer, that buffer is the one
  addition. Path by path, for the buffer \<open>it\<close> held at a read: on success the loop returns
  \<open>it\<close>, still owned and not released; on \<^verbatim>\<open>DB_BUFFER_SMALL\<close> it releases \<open>it\<close> and then
  allocates for the size the store reported; on \<^verbatim>\<open>DB_NOTFOUND\<close> and on every other code
  it releases \<open>it\<close> and returns \<^verbatim>\<open>NULL\<close>.
\<close>

theorem item_get_holds_one_buffer:
  assumes "mem_inv cfg s"
  shows "(case item_get cfg rs key nk s of
            Returned p s' \<Rightarrow>
              mem_inv cfg s' \<and>
              (if p = 0 then owned s' = owned s
               else p \<notin> owned s \<and> owned s' = insert p (owned s))
          | Waiting p s' \<Rightarrow>
              mem_inv cfg s' \<and> p \<noteq> 0 \<and> p \<notin> owned s \<and> owned s' = insert p (owned s)
          | Crashed f \<Rightarrow> False) \<and>
         (\<forall>it ulen r rs'. it \<in> owned s \<longrightarrow>
            (case status r of
               DB_SUCCESS \<Rightarrow>
                 item_get_loop cfg (r # rs') key nk it ulen s =
                   Returned it (db_write it (written r)
                      (s\<lparr>events := events s @ [DbGet key (ucast nk) it ulen]\<rparr>)) \<and>
                 it \<in> owned (db_write it (written r)
                      (s\<lparr>events := events s @ [DbGet key (ucast nk) it ulen]\<rparr>))
             | DB_BUFFER_SMALL \<Rightarrow>
                 (\<exists>s1 it' s2.
                    item_free cfg it (db_write it (written r)
                      (s\<lparr>events := events s @ [DbGet key (ucast nk) it ulen]\<rparr>)) = Inr (0, s1) \<and>
                    owned s1 = owned s - {it} \<and>
                    item_alloc2 cfg (ucast (dsize r)) s1 = Inr (it', s2) \<and>
                    item_get_loop cfg (r # rs') key nk it ulen s =
                      (if it' = 0 then Returned 0 s2
                       else item_get_loop cfg rs' key nk it' (dsize r) s2))
             | _ \<Rightarrow>
                 (\<exists>s'.
                    item_free cfg it (db_write it (written r)
                      (s\<lparr>events := events s @ [DbGet key (ucast nk) it ulen]\<rparr>)) = Inr (0, s') \<and>
                    owned s' = owned s - {it} \<and>
                    item_get_loop cfg (r # rs') key nk it ulen s = Returned 0 s')))"
  using item_get_owns [OF assms] item_get_loop_paths [OF assms] by blast

theorem item_get_holds_one_buffer_witness:
  "mem_inv example_settings started \<and>
   (case item_get example_settings
           [\<lparr>status = DB_NOTFOUND, dsize = 0, written = None\<rparr>] ''k'' 1 started of
      Returned p s' \<Rightarrow> p = 0 \<and> owned s' = owned started
    | Waiting p s' \<Rightarrow> False
    | Crashed f \<Rightarrow> False)"
proof -
  have "\<exists>s'. item_get example_settings
           [\<lparr>status = DB_NOTFOUND, dsize = 0, written = None\<rparr>] ''k'' 1 started = Returned 0 s'"
    by (simp add: item_get_def item_alloc2_def item_from_freelist_def
        do_item_from_freelist_def c_malloc_def c_memset0_def started_fields
        example_settings_def Let_def item_free_def db_write_def zero_item_def
        item_add_to_freelist_def do_item_add_to_freelist_def freeitem_store_def)
  then show ?thesis
    using item_get_holds_one_buffer [OF started_mem_inv, of example_settings
        "[\<lparr>status = DB_NOTFOUND, dsize = 0, written = None\<rparr>]" "''k''" 1]
    by (auto simp: started_mem_inv)
qed

text \<open>The success path does not release the buffer it holds: after one successful read
  the buffer returned is allocated, outside the freelist and was never passed to
  \<^verbatim>\<open>free\<close>.\<close>

theorem item_get_success_keeps_buffer:
  "(case item_get example_settings
           [\<lparr>status = DB_SUCCESS, dsize = 9, written = None\<rparr>] ''k'' 1 started of
      Returned p s' \<Rightarrow>
        p = 2 \<and> heap s' p = Some \<lparr>bsize = 2048, content = zero_item\<rparr> \<and>
        pool_stack s' = [] \<and> p \<in> owned s' \<and>
        events s' = [Malloc 2048 2, DbGet ''k'' 1 2 2048]
    | Waiting p s' \<Rightarrow> False
    | Crashed f \<Rightarrow> False)"
  by (simp add: item_get_def item_alloc2_def item_from_freelist_def
        do_item_from_freelist_def c_malloc_def c_memset0_def started_fields
        example_settings_def Let_def db_write_def owned_def pool_stack_def)

text \<open>
  C9, as the code has it. On \<^verbatim>\<open>DB_NOTFOUND\<close> and on any other error code of the store
  \<^verbatim>\<open>item_get\<close> releases its buffer and returns \<^verbatim>\<open>NULL\<close>, and the outcome (value
  returned and state) is the same for an error code as for \<^verbatim>\<open>DB_NOTFOUND\<close>, at the
  first read and at any later one: the caller cannot tell them apart.
\<close>

theorem item_get_error_as_notfound:
  assumes "mem_inv cfg s" "status r = DB_NOTFOUND \<or> status r = DB_FAILURE e"
  shows "(\<exists>s'. item_get cfg (r # rs) key nk s = Returned 0 s' \<and> mem_inv cfg s' \<and>
            owned s' = owned s) \<and>
         item_get cfg (r\<lparr>status := DB_FAILURE e\<rparr> # rs) key nk s =
           item_get cfg (r\<lparr>status := DB_NOTFOUND\<rparr> # rs) key nk s \<and>
         item_get cfg (map as_notfound rs') key nk s = item_get cfg rs' key nk s"
proof (intro conjI)
  from item_alloc2_mem_inv [OF assms(1), of "item_buf_size cfg"] obtain it s1 where
    a: "item_alloc2 cfg (item_buf_size cfg) s = Inr (it, s1)" "mem_inv cfg s1"
       "if it = 0 then owned s1 = owned s \<and> alloc_oracle s (allocs s) = None
        else it \<notin> owned s \<and> owned s1 = insert it (owned s)"
    by blast
  show "\<exists>s'. item_get cfg (r # rs) key nk s = Returned 0 s' \<and> mem_inv cfg s' \<and>
            owned s' = owned s"
  proof (cases "it = 0")
    case True
    then show ?thesis using a by (simp add: item_get_def)
  next
    case False
    with a(3) have own: "it \<in> owned s1" and base: "owned s1 - {it} = owned s" by auto
    have eq: "item_get cfg (r # rs) key nk s =
               item_get_loop cfg (r # rs) key nk it (ucast (item_buf_size cfg)) s1"
      using a(1) False by (simp add: item_get_def)
    from item_get_loop_paths [OF a(2) own, of r rs key nk "ucast (item_buf_size cfg)"] assms(2)
    obtain s' where s': "owned s' = owned s1 - {it}"
      "item_get_loop cfg (r # rs) key nk it (ucast (item_buf_size cfg)) s1 = Returned 0 s'"
      by auto
    from item_get_loop_owns [OF a(2) own, of "r # rs" key nk "ucast (item_buf_size cfg)"] s'(2)
    have "mem_inv cfg s'" by simp
    with s' base eq show ?thesis by simp
  qed
  have "\<And>it ulen s1. item_get_loop cfg (r\<lparr>status := DB_FAILURE e\<rparr> # rs) key nk it ulen s1 =
           item_get_loop cfg (r\<lparr>status := DB_NOTFOUND\<rparr> # rs) key nk it ulen s1"
    by (simp add: Let_def)
  then show "item_get cfg (r\<lparr>status := DB_FAILURE e\<rparr> # rs) key nk s =
           item_get cfg (r\<lparr>status := DB_NOTFOUND\<rparr> # rs) key nk s"
    by (simp add: item_get_def split: sum.splits prod.splits)
  show "item_get cfg (map as_notfound rs') key nk s = item_get cfg rs' key nk s"
    by (simp add: item_get_def item_get_loop_conflates split: sum.splits prod.splits)
qed

theorem item_get_error_as_notfound_witness:
  "mem_inv example_settings started \<and>
   (\<exists>s'. item_get example_settings
            [\<lparr>status = DB_FAILURE (- 30974), dsize = 0, written = None\<rparr>] ''k'' 1 started =
          Returned 0 s' \<and> owned s' = owned started)"
proof -
  have "status \<lparr>status = DB_FAILURE (- 30974), dsize = 0, written = None\<rparr> = DB_NOTFOUND \<or>
        status \<lparr>status = DB_FAILURE (- 30974), dsize = 0, written = None\<rparr> =
          DB_FAILURE (- 30974)"
    by simp
  from item_get_error_as_notfound [OF started_mem_inv this, of example_settings "[]" "''k''" 1]
  have "\<exists>s'. item_get example_settings
            [\<lparr>status = DB_FAILURE (- 30974), dsize = 0, written = None\<rparr>] ''k'' 1 started =
          Returned 0 s' \<and> owned s' = owned started"
    by blast
  then show ?thesis using started_mem_inv by blast
qed

text \<open>A read that fails with an error code and a read of an absent key give the same
  outcome, the pointer \<^verbatim>\<open>NULL\<close>.\<close>

theorem item_get_same_result_for_error_and_absence:
  "item_get example_settings
     [\<lparr>status = DB_FAILURE (- 30974), dsize = 0, written = None\<rparr>] ''k'' 1 started =
   item_get example_settings
     [\<lparr>status = DB_NOTFOUND, dsize = 0, written = None\<rparr>] ''k'' 1 started \<and>
   (case item_get example_settings
           [\<lparr>status = DB_NOTFOUND, dsize = 0, written = None\<rparr>] ''k'' 1 started of
      Returned p s' \<Rightarrow> p = 0
    | Waiting p s' \<Rightarrow> False
    | Crashed f \<Rightarrow> False)"
  by (simp add: item_get_def item_alloc2_def item_from_freelist_def
        do_item_from_freelist_def c_malloc_def c_memset0_def started_fields
        example_settings_def Let_def item_free_def db_write_def zero_item_def
        item_add_to_freelist_def do_item_add_to_freelist_def freeitem_store_def)

subsection \<open>The codec\<close>

text \<open>
  C4. For all flags and payload lengths \<^verbatim>\<open>item_make_header\<close> leaves in \<^verbatim>\<open>suffix\<close> the
  string made of a space, the flags in decimal, a space, the payload length minus 2 in
  decimal, a carriage return and a line feed. The string is written by the formatting
  routine into 40 bytes, and the routine keeps at most the first 39 characters of whatever
  it is given; with two 32-bit integers the string has at most 26 characters, so it is
  stored whole, and the length left in \<^verbatim>\<open>*nsuffix\<close> is the length of the stored suffix.
\<close>

theorem item_make_header_suffix:
  "fst (snd (item_make_header cfg k flags nb)) =
     CHR '' '' # show_int (sint flags) @ CHR '' '' # show_int (sint (nb - 2)) @
       [CHR 0x0D, CHR 0x0A] \<and>
   fst (snd (item_make_header cfg k flags nb)) = fst (c_snprintf 40 (suffix_format flags (nb - 2))) \<and>
   fst (c_snprintf 40 str) = take 39 str \<and>
   length (fst (c_snprintf 40 str)) \<le> 39 \<and>
   length (suffix_format flags (nb - 2)) \<le> 26 \<and>
   unat (snd (snd (item_make_header cfg k flags nb))) =
     length (fst (snd (item_make_header cfg k flags nb)))"
  using suffix_format_length [of flags "nb - 2"]
  by (simp add: item_make_header_eq nsuffix_exact) (simp add: suffix_format_def c_snprintf_def)

subsection \<open>Allocating and writing an item\<close>




subsection \<open>The retry of a read\<close>

text \<open>
  C1, as the code has it. Take a store that answers the first read with
  \<^verbatim>\<open>DB_BUFFER_SMALL\<close> and a size larger than the standard size, and the second read with
  success, in a state that satisfies the invariant and with an allocator that does not
  fail. Then, after \<^verbatim>\<open>item_get\<close> has acquired its first buffer \<open>a1\<close>, the outside calls
  up to the second read are: the first read into \<open>a1\<close>; the calls that release \<open>a1\<close>, none
  of which is a \<^verbatim>\<open>malloc\<close>; one \<^verbatim>\<open>malloc\<close> of exactly the size the store reported,
  giving a new buffer \<open>a2\<close>; the second read into \<open>a2\<close>. At that second read \<open>a1\<close> has been
  released exactly once (it is once in the freelist, or it was freed once). \<^verbatim>\<open>item_get\<close>
  then returns \<open>a2\<close>, a buffer of exactly the reported size; in this run there are two reads
  and one resize. The loop itself has no bound: at every read that the store answers with
  \<^verbatim>\<open>DB_BUFFER_SMALL\<close>, whichever read it is, \<^verbatim>\<open>item_get\<close> releases the buffer it holds,
  asks \<^verbatim>\<open>item_alloc2\<close> for the size reported, returns null if there is none and otherwise
  reads again into the new buffer, which it holds in a state that satisfies the invariant:
  one resize for each such answer.
\<close>

theorem item_get_one_resize:
  assumes inv: "mem_inv cfg s"
    and ok: "\<forall>n. alloc_oracle s n \<noteq> None"
    and r1: "status r1 = DB_BUFFER_SMALL" and r2: "status r2 = DB_SUCCESS"
    and big: "item_buf_size cfg < ucast (dsize r1)"
  shows "(\<exists>a1 s1 a2 s2 es.
     item_alloc2 cfg (item_buf_size cfg) s = Inr (a1, s1) \<and> a1 \<noteq> 0 \<and>
     item_get cfg [r1] key nk s = Waiting a2 s2 \<and> a2 \<noteq> 0 \<and> a2 \<noteq> a1 \<and>
     events s2 = events s1 @ DbGet key (ucast nk) a1 (ucast (item_buf_size cfg)) # es @
                   [Malloc (ucast (dsize r1)) a2, DbGet key (ucast nk) a2 (dsize r1)] \<and>
     release_events es \<and>
     count_list (pool_stack s2) a1 + count_list es (Free a1) = 1 \<and>
     item_get cfg (r1 # r2 # rest) key nk s = Returned a2 (db_write a2 (written r2) s2) \<and>
     map_option bsize (heap (db_write a2 (written r2) s2) a2) = Some (ucast (dsize r1))) \<and>
   (\<forall>t it ulen (r :: get_reply) rs'.
      mem_inv cfg t \<and> it \<in> owned t \<and> status r = DB_BUFFER_SMALL \<longrightarrow>
      (\<exists>s1 it' s2.
         item_free cfg it (db_write it (written r)
            (t\<lparr>events := events t @ [DbGet key (ucast nk) it ulen]\<rparr>)) = Inr (0, s1) \<and>
         owned s1 = owned t - {it} \<and>
         item_alloc2 cfg (ucast (dsize r)) s1 = Inr (it', s2) \<and>
         mem_inv cfg s2 \<and> (it' = 0 \<or> it' \<in> owned s2) \<and>
         item_get_loop cfg (r # rs') key nk it ulen t =
           (if it' = 0 then Returned 0 s2
            else item_get_loop cfg rs' key nk it' (dsize r) s2)))"
proof (intro conjI allI impI)
  fix t it ulen and r :: get_reply and rs'
  assume "mem_inv cfg t \<and> it \<in> owned t \<and> status r = DB_BUFFER_SMALL"
  then have "mem_inv cfg t" "it \<in> owned t" "status r = DB_BUFFER_SMALL" by simp_all
  then show "\<exists>s1 it' s2.
         item_free cfg it (db_write it (written r)
            (t\<lparr>events := events t @ [DbGet key (ucast nk) it ulen]\<rparr>)) = Inr (0, s1) \<and>
         owned s1 = owned t - {it} \<and>
         item_alloc2 cfg (ucast (dsize r)) s1 = Inr (it', s2) \<and>
         mem_inv cfg s2 \<and> (it' = 0 \<or> it' \<in> owned s2) \<and>
         item_get_loop cfg (r # rs') key nk it ulen t =
           (if it' = 0 then Returned 0 s2
            else item_get_loop cfg rs' key nk it' (dsize r) s2)"
    by (rule item_get_loop_resize)
next
  let ?ulen = "ucast (item_buf_size cfg) :: u_int32_t"
  let ?S = "ucast (dsize r1) :: size_t"
  from item_alloc2_mem_inv [OF inv, of "item_buf_size cfg"] obtain a1 s1 where
    a: "item_alloc2 cfg (item_buf_size cfg) s = Inr (a1, s1)" "mem_inv cfg s1"
       "alloc_oracle s1 = alloc_oracle s"
       "if a1 = 0 then owned s1 = owned s \<and> alloc_oracle s (allocs s) = None
        else a1 \<notin> owned s \<and> owned s1 = insert a1 (owned s)"
    by blast
  have "alloc_oracle s (allocs s) \<noteq> None" using ok by blast
  with a(4) have a1z: "a1 \<noteq> 0" by (cases "a1 = 0") simp_all
  with a(4) have own1: "a1 \<in> owned s1" by auto
  let ?s10 = "db_write a1 (written r1) (s1\<lparr>events := events s1 @ [DbGet key (ucast nk) a1 ?ulen]\<rparr>)"
  note w0 = db_write_mem_inv [OF a(2), of a1 "written r1"
      "events s1 @ [DbGet key (ucast nk) a1 ?ulen]"]
  have own10: "a1 \<in> owned ?s10" using own1 w0(2) by simp
  then obtain b0 where b0: "heap ?s10 a1 = Some b0" by (auto simp: owned_def)
  have a1le: "a1 \<le> allocs ?s10"
    using w0(1) b0 by (auto simp: mem_inv_def heap_inv_def)
  from item_free_mem_inv [OF w0(1) own10 b0] obtain s11 es where
    f: "item_free cfg a1 ?s10 = Inr (0, s11)" "mem_inv cfg s11"
       "alloc_oracle s11 = alloc_oracle ?s10" "allocs ?s10 \<le> allocs s11"
       "events s11 = events ?s10 @ es" "release_events es"
       "count_list (pool_stack s11) a1 + count_list es (Free a1) = 1"
    by blast
  have "alloc_oracle s11 = alloc_oracle s" using f(3) w0(3) a(3) by simp
  with ok obtain g where g: "alloc_oracle s11 (allocs s11) = Some g" by fastforce
  let ?a2 = "Suc (allocs s11)"
  let ?s12 = "s11\<lparr>heap := (heap s11)(?a2 \<mapsto> \<lparr>bsize = ?S, content = zero_item\<rparr>),
                 allocs := Suc (allocs s11),
                 events := events s11 @ [Malloc ?S ?a2]\<rparr>"
  have al: "item_alloc2 cfg ?S s11 = Inr (?a2, ?s12)" by (rule alloc2_direct [OF big g])
  let ?s2 = "?s12\<lparr>events := events ?s12 @ [DbGet key (ucast nk) ?a2 (dsize r1)]\<rparr>"
  have loop1: "item_get_loop cfg [r1] key nk a1 ?ulen s1 = Waiting ?a2 ?s2"
    using r1 f(1) al by (simp add: Let_def)
  have loop2: "item_get_loop cfg (r1 # r2 # rest) key nk a1 ?ulen s1 =
                 Returned ?a2 (db_write ?a2 (written r2) ?s2)"
    using r1 r2 f(1) al by (simp add: Let_def)
  have get1: "item_get cfg [r1] key nk s = Waiting ?a2 ?s2"
    using a(1) a1z loop1 by (simp add: item_get_def)
  have get2: "item_get cfg (r1 # r2 # rest) key nk s =
                Returned ?a2 (db_write ?a2 (written r2) ?s2)"
    using a(1) a1z loop2 by (simp add: item_get_def)
  have ne: "?a2 \<noteq> a1" using a1le f(4) by simp
  have ev: "events ?s2 = events s1 @ DbGet key (ucast nk) a1 ?ulen # es @
                   [Malloc ?S ?a2, DbGet key (ucast nk) ?a2 (dsize r1)]"
    using f(5) w0(5) by simp
  have cnt: "count_list (pool_stack ?s2) a1 + count_list es (Free a1) = 1"
    using f(7) by (simp add: pool_stack_def)
  have a2z: "?a2 \<noteq> 0" by simp
  have sz: "map_option bsize (heap (db_write ?a2 (written r2) ?s2) ?a2) = Some ?S"
    by (simp add: db_write_unchanged)
  show "\<exists>a1 s1 a2 s2 es.
     item_alloc2 cfg (item_buf_size cfg) s = Inr (a1, s1) \<and> a1 \<noteq> 0 \<and>
     item_get cfg [r1] key nk s = Waiting a2 s2 \<and> a2 \<noteq> 0 \<and> a2 \<noteq> a1 \<and>
     events s2 = events s1 @ DbGet key (ucast nk) a1 (ucast (item_buf_size cfg)) # es @
                   [Malloc (ucast (dsize r1)) a2, DbGet key (ucast nk) a2 (dsize r1)] \<and>
     release_events es \<and>
     count_list (pool_stack s2) a1 + count_list es (Free a1) = 1 \<and>
     item_get cfg (r1 # r2 # rest) key nk s = Returned a2 (db_write a2 (written r2) s2) \<and>
     map_option bsize (heap (db_write a2 (written r2) s2) a2) = Some (ucast (dsize r1))"
    by (intro exI [of _ a1] exI [of _ s1] exI [of _ ?a2] exI [of _ ?s2] exI [of _ es] conjI)
      (rule a(1) a1z get1 a2z ne ev f(6) cnt get2 sz)+
qed

theorem item_get_one_resize_witness:
  "mem_inv example_settings started \<and> (\<forall>n. alloc_oracle started n \<noteq> None) \<and>
   item_buf_size example_settings < ucast (5000 :: u_int32_t) \<and>
   (\<exists>a2 s'. item_get example_settings
               [\<lparr>status = DB_BUFFER_SMALL, dsize = 5000, written = None\<rparr>,
                \<lparr>status = DB_SUCCESS, dsize = 5000, written = None\<rparr>] ''k'' 1 started =
             Returned a2 s' \<and>
           map_option bsize (heap s' a2) = Some 5000) \<and>
   mem_inv example_settings one_buffer \<and> 2 \<in> owned one_buffer \<and>
   (\<exists>it' s2. item_alloc2 example_settings 5000
                (one_buffer\<lparr>events := [DbGet ''k'' 1 2 2048], freeitem := (freeitem one_buffer)[0 := 2],
                             freeitemcurr := 1\<rparr>) = Inr (it', s2) \<and>
      item_get_loop example_settings
        [\<lparr>status = DB_BUFFER_SMALL, dsize = 5000, written = None\<rparr>] ''k'' 1 2 2048 one_buffer =
      (if it' = 0 then Returned 0 s2
       else Waiting it' (s2\<lparr>events := events s2 @ [DbGet ''k'' 1 it' 5000]\<rparr>)))"
proof -
  let ?r = "\<lparr>status = DB_BUFFER_SMALL, dsize = 5000, written = None\<rparr>"
  have ok: "\<forall>n. alloc_oracle started n \<noteq> None" by (simp add: started_fields)
  have big: "item_buf_size example_settings <
             ucast (dsize \<lparr>status = DB_BUFFER_SMALL, dsize = 5000, written = None\<rparr>)"
    by (simp add: example_settings_def)
  have r1: "status \<lparr>status = DB_BUFFER_SMALL, dsize = 5000, written = None\<rparr> = DB_BUFFER_SMALL"
    and r2: "status \<lparr>status = DB_SUCCESS, dsize = 5000, written = None\<rparr> = DB_SUCCESS"
    by simp_all
  note th0 = item_get_one_resize [OF started_mem_inv ok r1 r2 big, of "''k''" 1 "[]"]
  from th0
  have a: "\<exists>a2 s'. item_get example_settings
               [\<lparr>status = DB_BUFFER_SMALL, dsize = 5000, written = None\<rparr>,
                \<lparr>status = DB_SUCCESS, dsize = 5000, written = None\<rparr>] ''k'' 1 started =
             Returned a2 s' \<and>
           map_option bsize (heap s' a2) = Some 5000"
    by (simp del: map_option_eq_Some) blast
  have o: "2 \<in> owned one_buffer" by (simp add: one_buffer_owned)
  have fr: "item_free example_settings 2 (db_write 2 None
              (one_buffer\<lparr>events := events one_buffer @ [DbGet ''k'' 1 2 2048]\<rparr>)) =
            Inr (0, one_buffer\<lparr>events := [DbGet ''k'' 1 2 2048],
                  freeitem := (freeitem one_buffer)[0 := 2], freeitemcurr := 1\<rparr>)"
    by (simp add: item_free_def db_write_def one_buffer_def started_fields zero_item_def
        example_settings_def item_add_to_freelist_def do_item_add_to_freelist_def
        freeitem_store_def Let_def)
  from th0 have "\<forall>t it ulen (r :: get_reply) rs'.
      mem_inv example_settings t \<and> it \<in> owned t \<and> status r = DB_BUFFER_SMALL \<longrightarrow>
      (\<exists>s1 it' s2.
         item_free example_settings it (db_write it (written r)
            (t\<lparr>events := events t @ [DbGet ''k'' (ucast (1 :: size_t)) it ulen]\<rparr>)) = Inr (0, s1) \<and>
         owned s1 = owned t - {it} \<and>
         item_alloc2 example_settings (ucast (dsize r)) s1 = Inr (it', s2) \<and>
         mem_inv example_settings s2 \<and> (it' = 0 \<or> it' \<in> owned s2) \<and>
         item_get_loop example_settings (r # rs') ''k'' 1 it ulen t =
           (if it' = 0 then Returned 0 s2
            else item_get_loop example_settings rs' ''k'' 1 it' (dsize r) s2))"
    by (rule conjunct2)
  from this [rule_format, of one_buffer 2 ?r 2048 "[]"] one_buffer_mem_inv o
  obtain s1 it' s2 where
    c: "item_free example_settings 2 (db_write 2 None
              (one_buffer\<lparr>events := events one_buffer @ [DbGet ''k'' 1 2 2048]\<rparr>)) = Inr (0, s1)"
      "item_alloc2 example_settings 5000 s1 = Inr (it', s2)"
      "item_get_loop example_settings [?r] ''k'' 1 2 2048 one_buffer =
         (if it' = 0 then Returned 0 s2 else item_get_loop example_settings [] ''k'' 1 it' 5000 s2)"
    by (auto simp del: item_get_loop.simps)
  from c(1) have s1: "s1 = one_buffer\<lparr>events := [DbGet ''k'' 1 2 2048],
                  freeitem := (freeitem one_buffer)[0 := 2], freeitemcurr := 1\<rparr>"
    unfolding fr by simp
  have b: "\<exists>it' s2. item_alloc2 example_settings 5000
                (one_buffer\<lparr>events := [DbGet ''k'' 1 2 2048], freeitem := (freeitem one_buffer)[0 := 2],
                             freeitemcurr := 1\<rparr>) = Inr (it', s2) \<and>
      item_get_loop example_settings [?r] ''k'' 1 2 2048 one_buffer =
      (if it' = 0 then Returned 0 s2
       else Waiting it' (s2\<lparr>events := events s2 @ [DbGet ''k'' 1 it' 5000]\<rparr>))"
    using c(2,3) unfolding s1
    by (intro exI [of _ it'] exI [of _ s2]) (simp del: item_get_loop.simps(2))
  from a b started_mem_inv one_buffer_mem_inv o ok big show ?thesis by simp
qed

text \<open>A store that answers \<^verbatim>\<open>DB_BUFFER_SMALL\<close> twice makes \<^verbatim>\<open>item_get\<close> resize twice:
  the buffer of 5000 bytes given up at the second resize goes into the freelist, since its
  header is still zero. And a store that reports a size of 100 bytes, which is not larger
  than the standard size of 2048, leads to no allocation at all: the buffer released is
  taken from the freelist again, and the one returned has 2048 bytes, not 100.\<close>

theorem item_get_resizes_again:
  "(case item_get example_settings
          [\<lparr>status = DB_BUFFER_SMALL, dsize = 5000, written = None\<rparr>,
           \<lparr>status = DB_BUFFER_SMALL, dsize = 6000, written = None\<rparr>,
           \<lparr>status = DB_SUCCESS, dsize = 6000, written = None\<rparr>] ''k'' 1 started of
     Returned p s' \<Rightarrow>
       p = 4 \<and> pool_stack s' = [2, 3] \<and>
       events s' = [Malloc 2048 2, DbGet ''k'' 1 2 2048, Malloc 5000 3, DbGet ''k'' 1 3 5000,
                    Malloc 6000 4, DbGet ''k'' 1 4 6000]
   | Waiting p s' \<Rightarrow> False
   | Crashed f \<Rightarrow> False) \<and>
   (case item_get example_settings
          [\<lparr>status = DB_BUFFER_SMALL, dsize = 100, written = None\<rparr>,
           \<lparr>status = DB_SUCCESS, dsize = 100, written = None\<rparr>] ''k'' 1 started of
     Returned p s' \<Rightarrow>
       p = 2 \<and> map_option bsize (heap s' p) = Some 2048 \<and>
       events s' = [Malloc 2048 2, DbGet ''k'' 1 2 2048, DbGet ''k'' 1 2 100]
   | Waiting p s' \<Rightarrow> False
   | Crashed f \<Rightarrow> False)"
proof -
  have r: "replicate 500 (0::nat) = 0 # 0 # replicate 498 0"
    by (simp add: replicate_Suc [symmetric] del: replicate_Suc)
  show ?thesis
    by (simp add: item_get_def item_alloc2_def item_from_freelist_def
        do_item_from_freelist_def c_malloc_def c_memset0_def started_fields
        example_settings_def Let_def item_free_def db_write_def zero_item_def
        item_add_to_freelist_def do_item_add_to_freelist_def freeitem_store_def
        pool_stack_def r)
qed

end
